theory Spec2Isabelle
  imports Complex_Main "HOL-Library.Product_Lexorder" "HOL-Library.Monad_Syntax"
begin

section \<open>Block designs: errors, designs and the incidence-structure facade\<close>

text \<open>
  The exceptions the module raises, by their Python names. The specification calls
  \<open>EmptySetError\<close> "NoSuchDesign", \<open>NotImplementedError\<close> "ConstructionUnknown",
  \<open>ValueError\<close> (raised by the finite-field constructor) "InvalidFieldOrder",
  \<open>AssertionError\<close> "MalformedPlane" and \<open>TypeError\<close> (raised by \<open>BlockDesign\<close>)
  "ValidationFailed".
\<close>

datatype error =
    ZeroDivisionError
  | IndexError
  | KeyError
  | AssertionError
  | ValueError
  | TypeError
  | EmptySetError
  | NotImplementedError

text \<open>
  Modelled from the spec: the class \<open>IncidenceStructure\<close> (module
  \<open>incidence_structures\<close>) is missing; the specification says that it stores the
  points and the blocks it is given. Point labels are Python integers. The display name
  is not modelled.
\<close>

record design =
  pnts :: "int list"
  blcks :: "int list list"

text \<open>Python's \<open>range(a, b)\<close> and \<open>range(b)\<close>.\<close>

definition range2 :: "int \<Rightarrow> int \<Rightarrow> int list" where
  "range2 a b = [a..b - 1]"

definition range1 :: "int \<Rightarrow> int list" where
  "range1 b = range2 0 b"

text \<open>
  \<open>BlockDesign(max_pt, blks, name, test)\<close>. The verdict of the facade's
  \<open>block_design_checker\<close> on the parameters it computes itself is the argument
  \<open>chk\<close>: that method is not part of this module.
\<close>

definition BlockDesign :: "(design \<Rightarrow> bool) \<Rightarrow> int \<Rightarrow> int list list \<Rightarrow> bool \<Rightarrow> error + design" where
  "BlockDesign chk max_pt blks test =
     (let BD = \<lparr>pnts = range1 max_pt, blcks = blks\<rparr>
      in if \<not> test then Inr BD
         else if chk BD then Inr BD
         else Inl TypeError)"

section \<open>Design parameters\<close>

text \<open>
  Modelled from the spec: \<open>binomial\<close> of the arithmetic module is missing; it is the
  binomial coefficient \<open>C(x, m)\<close>, here on the non-negative arguments the parameter
  deriver is specified for.
\<close>

definition binomial :: "int \<Rightarrow> int \<Rightarrow> int" where
  "binomial x m = int (nat x choose nat m)"

text \<open>
  \<open>tdesign_params(t, v, k, L)\<close>. \<open>divmod(a, y)[0]\<close> is floor division and raises
  \<open>ZeroDivisionError\<close> for \<open>y = 0\<close>; \<open>L * x/y\<close> is an exact rational, of which
  \<open>integer_floor\<close> takes the floor.
\<close>

definition tdesign_params :: "int \<Rightarrow> int \<Rightarrow> int \<Rightarrow> int \<Rightarrow> error + (int \<times> int \<times> int \<times> int \<times> int \<times> int)" where
  "tdesign_params t v k L =
     (let x = binomial v t;
          y = binomial k t
      in if y = 0 then Inl ZeroDivisionError
         else
           let b = (L * x) div y;
               x = binomial (v - 1) (t - 1);
               y = binomial (k - 1) (t - 1)
           in if y = 0 then Inl ZeroDivisionError
              else
                let r = \<lfloor>(rat_of_int (L * x)) / rat_of_int y\<rfloor>
                in Inr (t, v, b, r, k, L))"

section \<open>The Desarguesian projective plane\<close>

text \<open>
  The finite field \<open>K = FiniteField(n, 'x')\<close> comes from a module outside this one. Its
  elements are the values of a type of class \<open>field\<close>, with the field's own \<open>+\<close> and
  \<open>*\<close>; the constructor is the argument \<open>FF\<close>, which yields the elements in the order in
  which iterating over \<open>K\<close> enumerates them, or \<open>None\<close> where it raises \<open>ValueError\<close>
  ("the order of a finite field must be a prime power").
\<close>

text \<open>\<open>relabel = {x:i for i,x in enumerate(K)}\<close>: a later entry replaces an earlier one.\<close>

definition relabel_dict :: "'a list \<Rightarrow> ('a \<rightharpoonup> nat)" where
  "relabel_dict K = fold (\<lambda>(i, x) m. m(x \<mapsto> i)) (enumerate 0 K) Map.empty"

text \<open>
  The line \<open>x = s*y + a\<close>: \<open>[relabel[s*y+a] + n*relabel[y] for y in Kiter]\<close>, to which
  \<open>n2 + relabel[s]\<close> is appended. A key that is missing from the dictionary makes the
  result \<open>None\<close> (Python raises \<open>KeyError\<close>).
\<close>

definition line_sa :: "('a::field \<rightharpoonup> nat) \<Rightarrow> 'a list \<Rightarrow> int \<Rightarrow> 'a \<Rightarrow> 'a \<Rightarrow> int list option" where
  "line_sa relabel Kiter n s a =
     do {
       blk \<leftarrow> those (map (\<lambda>y. do {
                 u \<leftarrow> relabel (s * y + a);
                 w \<leftarrow> relabel y;
                 Some (int u + n * int w)
               }) Kiter);
       i \<leftarrow> relabel s;
       Some (blk @ [n\<^sup>2 + int i])
     }"

text \<open>The horizontal \<open>y = a\<close>: \<open>[relabel[x] + n*relabel[a] for x in Kiter]\<close> and \<open>n2 + n\<close>.\<close>

definition line_h :: "('a \<rightharpoonup> nat) \<Rightarrow> 'a list \<Rightarrow> int \<Rightarrow> 'a \<Rightarrow> int list option" where
  "line_h relabel Kiter n a =
     do {
       blk \<leftarrow> those (map (\<lambda>x. do {
                 u \<leftarrow> relabel x;
                 w \<leftarrow> relabel a;
                 Some (int u + n * int w)
               }) Kiter);
       Some (blk @ [n\<^sup>2 + n])
     }"

text \<open>The line at infinity: \<open>[n2 + i for i in xrange(n+1)]\<close>.\<close>

definition line_inf :: "int \<Rightarrow> int list" where
  "line_inf n = map (\<lambda>i. n\<^sup>2 + i) (range1 (n + 1))"

text \<open>
  The three loops of the builder, in their order. \<open>Kiter\<close> is the dictionary itself, and
  iterating over a dictionary visits its keys in an order of Python's choosing.
\<close>

definition desarguesian_blcks :: "('a::field \<rightharpoonup> nat) \<Rightarrow> 'a list \<Rightarrow> int \<Rightarrow> int list list option" where
  "desarguesian_blcks relabel Kiter n =
     do {
       sa \<leftarrow> those (map (\<lambda>(s, a). line_sa relabel Kiter n s a) (List.product Kiter Kiter));
       h \<leftarrow> those (map (\<lambda>a. line_h relabel Kiter n a) Kiter);
       Some (sa @ h @ [line_inf n])
     }"

text \<open>
  \<open>DesarguesianProjectivePlaneDesign(n, check)\<close>. The argument \<open>iter\<close> is the order in
  which Python iterates over the keys of a dictionary.
\<close>

definition DesarguesianProjectivePlaneDesign ::
  "(int \<Rightarrow> 'a::field list option) \<Rightarrow> (('a \<rightharpoonup> nat) \<Rightarrow> 'a list) \<Rightarrow> (design \<Rightarrow> bool)
     \<Rightarrow> int \<Rightarrow> bool \<Rightarrow> error + design" where
  "DesarguesianProjectivePlaneDesign FF iter chk n check =
     (case FF n of
        None \<Rightarrow> Inl ValueError
      | Some K \<Rightarrow>
          let n2 = n\<^sup>2;
              relabel = relabel_dict K;
              Kiter = iter relabel
          in case desarguesian_blcks relabel Kiter n of
               None \<Rightarrow> Inl KeyError
             | Some blks \<Rightarrow> BlockDesign chk (n2 + n + 1) blks check)"

section \<open>From a projective plane to an orthogonal array and back\<close>

text \<open>
  The loop over \<open>pplane.blcks\<close>, with the lists \<open>L\<close> and \<open>OA\<close> it appends to:
  \<open>b = blk[:]; b.remove(pt)\<close> is \<open>remove1 pt blk\<close>.
\<close>

fun pencil_loop :: "int \<Rightarrow> int \<Rightarrow> int list list \<Rightarrow> int list list \<times> int list list
    \<Rightarrow> error + (int list list \<times> int list list)" where
  "pencil_loop n pt [] (L, OA) = Inr (L, OA)"
| "pencil_loop n pt (blk # rest) (L, OA) =
     (if int (length blk) \<noteq> n + 1 then Inl AssertionError
      else if pt \<in> set blk then pencil_loop n pt rest (L @ [remove1 pt blk], OA)
      else pencil_loop n pt rest (L, OA @ [blk]))"

text \<open>
  \<open>dict((x,(j,i)) for j,l in enumerate(L) for i,x in enumerate(l))\<close>: the pairs in the
  order of the generator, a later one replacing an earlier one with the same key.
\<close>

definition pencil_pairs :: "int list list \<Rightarrow> (int \<times> (nat \<times> nat)) list" where
  "pencil_pairs L =
     concat (map (\<lambda>(j, l). map (\<lambda>(i, x). (x, (j, i))) (enumerate 0 l)) (enumerate 0 L))"

definition pencil_relabel :: "int list list \<Rightarrow> (int \<rightharpoonup> nat \<times> nat)" where
  "pencil_relabel L = fold (\<lambda>(x, ji) m. m(x \<mapsto> ji)) (pencil_pairs L) Map.empty"

text \<open>
  \<open>[sorted(relabel[x] for x in l) for l in OA]\<close> and then \<open>[[x[1] for x in l] for l in OA]\<close>;
  tuples are sorted lexicographically. A missing key gives \<open>None\<close> (\<open>KeyError\<close>).
\<close>

definition oa_rows :: "(int \<rightharpoonup> nat \<times> nat) \<Rightarrow> int list list \<Rightarrow> int list list option" where
  "oa_rows relabel OA =
     do {
       OA1 \<leftarrow> those (map (\<lambda>l. map_option sort (those (map relabel l))) OA);
       Some (map (\<lambda>l. map (\<lambda>x. int (snd x)) l) OA1)
     }"

text \<open>
  \<open>projective_plane_to_OA(pplane, pt, check)\<close>. The argument \<open>is_orthogonal_array\<close> is
  the function of that name of the module \<open>orthogonal_arrays\<close>, which returns a boolean.
\<close>

definition projective_plane_to_OA ::
  "(int list list \<Rightarrow> int \<Rightarrow> int \<Rightarrow> int \<Rightarrow> bool) \<Rightarrow> design \<Rightarrow> int option \<Rightarrow> bool
     \<Rightarrow> error + int list list" where
  "projective_plane_to_OA is_orthogonal_array pplane pt check =
     (case blcks pplane of
        [] \<Rightarrow> Inl IndexError
      | b0 # _ \<Rightarrow>
          let n = int (length b0) - 1
          in if int (length (blcks pplane)) \<noteq> n\<^sup>2 + n + 1 then Inl AssertionError
             else
               let pt = (case pt of None \<Rightarrow> n\<^sup>2 + n | Some p \<Rightarrow> p)
               in case pencil_loop n pt (blcks pplane) ([], []) of
                    Inl e \<Rightarrow> Inl e
                  | Inr (L, OA) \<Rightarrow>
                      if int (length L) \<noteq> n + 1 then Inl AssertionError
                      else
                        case oa_rows (pencil_relabel L) OA of
                          None \<Rightarrow> Inl KeyError
                        | Some OA \<Rightarrow>
                            let valid = (if check then is_orthogonal_array OA (n + 1) n 2 else True)
                            in Inr OA)"

text \<open>\<open>OA_to_projective_plane(OA, check)\<close>.\<close>

definition OA_to_projective_plane :: "(design \<Rightarrow> bool) \<Rightarrow> int list list \<Rightarrow> bool \<Rightarrow> error + design" where
  "OA_to_projective_plane chk OA check =
     (case OA of
        [] \<Rightarrow> Inl IndexError
      | l0 # _ \<Rightarrow>
          let n = int (length l0) - 1;
              n2 = n\<^sup>2
          in if int (length OA) \<noteq> n2 then Inl AssertionError
             else
               let blks = map (\<lambda>l. map (\<lambda>(i, j). int i + (n + 1) * j) (enumerate 0 l)) OA;
                   blks = blks @ map (\<lambda>i. range2 (i * n) ((i + 1) * n) @ [n2 + n]) (range1 (n + 1))
               in BlockDesign chk (n2 + n + 1) blks check)"

section \<open>Existence of a projective plane of a given order\<close>

text \<open>
  Modelled from the spec: \<open>two_squares\<close> of the arithmetic module is missing; it fails
  (with \<open>ValueError\<close>) exactly when its argument is not expressible as a sum of two
  integer squares.
\<close>

definition sum_of_two_squares :: "int \<Rightarrow> bool" where
  "sum_of_two_squares n = (\<exists>a \<in> {0..nat n}. \<exists>b \<in> {0..nat n}. int (a\<^sup>2 + b\<^sup>2) = n)"

text \<open>
  Modelled from the spec: \<open>is_prime_power\<close> of the arithmetic module is missing; it says
  whether its argument is a power \<open>p^k\<close>, \<open>k \<ge> 1\<close>, of a prime number \<open>p\<close>.
\<close>

definition is_prime :: "nat \<Rightarrow> bool" where
  "is_prime p = (2 \<le> p \<and> (\<forall>d \<in> {2..<p}. \<not> d dvd p))"

definition is_prime_power :: "int \<Rightarrow> bool" where
  "is_prime_power n = (\<exists>p \<in> {2..nat n}. is_prime p \<and> (\<exists>k \<in> {1..nat n}. int (p ^ k) = n))"

text \<open>\<open>projective_plane(n)\<close>; the builder is called with its default \<open>check=True\<close>.\<close>

definition projective_plane ::
  "(int \<Rightarrow> 'a::field list option) \<Rightarrow> (('a \<rightharpoonup> nat) \<Rightarrow> 'a list) \<Rightarrow> (design \<Rightarrow> bool)
     \<Rightarrow> int \<Rightarrow> error + design" where
  "projective_plane FF iter chk n =
     (if n \<le> 1 then Inl EmptySetError
      else if n = 10 then Inl EmptySetError
      else if n mod 4 \<in> {1, 2} \<and> \<not> sum_of_two_squares n then Inl EmptySetError
      else if \<not> is_prime_power n then Inl NotImplementedError
      else DesarguesianProjectivePlaneDesign FF iter chk n True)"

section \<open>The field with three elements\<close>

datatype gf3 = G0 | G1 | G2

fun gf3_of_nat :: "nat \<Rightarrow> gf3" where
  "gf3_of_nat n = (if n mod 3 = 0 then G0 else if n mod 3 = 1 then G1 else G2)"

fun gf3_to_nat :: "gf3 \<Rightarrow> nat" where
  "gf3_to_nat G0 = 0"
| "gf3_to_nat G1 = 1"
| "gf3_to_nat G2 = 2"

instantiation gf3 :: field
begin

definition zero_gf3 :: gf3 where "zero_gf3 = G0"
definition one_gf3 :: gf3 where "one_gf3 = G1"
definition plus_gf3 :: "gf3 \<Rightarrow> gf3 \<Rightarrow> gf3" where
  "plus_gf3 a b = gf3_of_nat (gf3_to_nat a + gf3_to_nat b)"
definition times_gf3 :: "gf3 \<Rightarrow> gf3 \<Rightarrow> gf3" where
  "times_gf3 a b = gf3_of_nat (gf3_to_nat a * gf3_to_nat b)"
definition uminus_gf3 :: "gf3 \<Rightarrow> gf3" where
  "uminus_gf3 a = gf3_of_nat (3 - gf3_to_nat a)"
definition minus_gf3 :: "gf3 \<Rightarrow> gf3 \<Rightarrow> gf3" where
  "minus_gf3 a b = a + (- b)"
definition inverse_gf3 :: "gf3 \<Rightarrow> gf3" where
  "inverse_gf3 a = a"
definition divide_gf3 :: "gf3 \<Rightarrow> gf3 \<Rightarrow> gf3" where
  "divide_gf3 a b = a * inverse b"

instance
proof
  fix a b c :: gf3
  show "a + b + c = a + (b + c)"
    by (cases a; cases b; cases c; simp add: plus_gf3_def)
  show "a + b = b + a"
    by (simp add: plus_gf3_def add.commute)
  show "0 + a = a"
    by (cases a; simp add: plus_gf3_def zero_gf3_def)
  show "- a + a = 0"
    by (cases a; simp add: plus_gf3_def uminus_gf3_def zero_gf3_def)
  show "a - b = a + - b"
    by (simp add: minus_gf3_def)
  show "a * b * c = a * (b * c)"
    by (cases a; cases b; cases c; simp add: times_gf3_def)
  show "a * b = b * a"
    by (simp add: times_gf3_def mult.commute)
  show "1 * a = a"
    by (cases a; simp add: times_gf3_def one_gf3_def)
  show "(a + b) * c = a * c + b * c"
    by (cases a; cases b; cases c; simp add: times_gf3_def plus_gf3_def)
  show "(0::gf3) \<noteq> 1"
    by (simp add: zero_gf3_def one_gf3_def)
  show "a \<noteq> 0 \<Longrightarrow> inverse a * a = 1"
    by (cases a; simp add: times_gf3_def inverse_gf3_def zero_gf3_def one_gf3_def)
  show "divide a b = a * inverse b"
    by (simp add: divide_gf3_def)
  show "inverse (0::gf3) = 0"
    by (simp add: inverse_gf3_def)
qed

end

text \<open>A finite-field constructor that knows the field of order 3 only.\<close>

definition FiniteField3 :: "int \<Rightarrow> gf3 list option" where
  "FiniteField3 n = (if n = 3 then Some [G0, G1, G2] else None)"

text \<open>Two orders in which a dictionary with keys in \<open>gf3\<close> may iterate.\<close>

definition iter_up :: "(gf3 \<rightharpoonup> nat) \<Rightarrow> gf3 list" where
  "iter_up m = filter (\<lambda>x. m x \<noteq> None) [G0, G1, G2]"

definition iter_mixed :: "(gf3 \<rightharpoonup> nat) \<Rightarrow> gf3 list" where
  "iter_mixed m = filter (\<lambda>x. m x \<noteq> None) [G2, G0, G1]"

text \<open>A checker of the facade that accepts every design, and one that accepts none.\<close>

definition lenient_checker :: "design \<Rightarrow> bool" where
  "lenient_checker D = True"

definition strict_checker :: "design \<Rightarrow> bool" where
  "strict_checker D = False"

text \<open>An \<open>is_orthogonal_array\<close> that rejects every array.\<close>

definition rejecting_is_orthogonal_array :: "int list list \<Rightarrow> int \<Rightarrow> int \<Rightarrow> int \<Rightarrow> bool" where
  "rejecting_is_orthogonal_array OA k n t = False"

section \<open>Projective geometry designs\<close>

text \<open>
  \<open>ProjectiveGeometryDesign(n, d, F)\<close> with the default \<open>algorithm=None\<close>. The field and
  its vector spaces belong to other modules: \<open>order\<close> is \<open>F.order()\<close>,
  \<open>subspaces F m k\<close> is \<open>list(VectorSpace(F, m).subspaces(k))\<close> and \<open>is_subspace\<close> is
  the method of that name. \<open>BlockDesign\<close> is called with its default \<open>test=True\<close>.
\<close>

definition ProjectiveGeometryDesign ::
  "('F \<Rightarrow> int) \<Rightarrow> ('F \<Rightarrow> int \<Rightarrow> int \<Rightarrow> 'S list) \<Rightarrow> ('S \<Rightarrow> 'S \<Rightarrow> bool) \<Rightarrow> (design \<Rightarrow> bool)
     \<Rightarrow> int \<Rightarrow> int \<Rightarrow> 'F \<Rightarrow> error + design" where
  "ProjectiveGeometryDesign order subspaces is_subspace chk n d F =
     (let q = order F;
          points = subspaces F (n + 1) 1;
          flats = subspaces F (n + 1) (d + 1);
          blks = map (\<lambda>p. map int (filter (\<lambda>i. is_subspace p (flats ! i)) [0..<length flats])) points
      in if q - 1 = 0 then Inl ZeroDivisionError
         else BlockDesign chk ((q ^ nat (n + 1) - 1) div (q - 1)) blks True)"

text \<open>
  The vector spaces over the field with two elements, as an instance of those arguments:
  a vector is a list of bits, a subspace the list of its vectors.
\<close>

definition gf2_add :: "bool list \<Rightarrow> bool list \<Rightarrow> bool list" where
  "gf2_add u v = map2 (\<lambda>a b. a \<noteq> b) u v"

definition gf2_linear :: "bool list list \<Rightarrow> bool" where
  "gf2_linear S = (S \<noteq> [] \<and> (\<forall>u \<in> set S. \<forall>v \<in> set S. gf2_add u v \<in> set S))"

definition gf2_subspaces :: "unit \<Rightarrow> int \<Rightarrow> int \<Rightarrow> bool list list list" where
  "gf2_subspaces F m k =
     filter (\<lambda>S. gf2_linear S \<and> length S = 2 ^ nat k) (subseqs (List.n_lists (nat m) [False, True]))"

definition gf2_is_subspace :: "bool list list \<Rightarrow> bool list list \<Rightarrow> bool" where
  "gf2_is_subspace U W = (set U \<subseteq> set W)"

definition gf2_order :: "unit \<Rightarrow> int" where
  "gf2_order F = 2"

section \<open>The projective plane over a field\<close>

text \<open>
  The points \<open>(x:y:1)\<close>, \<open>(x:1:0)\<close> and \<open>(1:0:0)\<close> of the plane, its lines
  \<open>x = s*y + a*z\<close>, \<open>y = a*z\<close> and \<open>z = 0\<close>, and the incidence between them: the
  notions the builder's comments refer to.
\<close>

datatype 'a ppoint = PAff 'a 'a | PInf 'a | PVert

datatype 'a pline = LSlope 'a 'a | LHoriz 'a | LInfty

fun on_line :: "'a::field ppoint \<Rightarrow> 'a pline \<Rightarrow> bool" where
  "on_line (PAff x y) (LSlope s a) = (x = s * y + a)"
| "on_line (PInf t) (LSlope s a) = (t = s)"
| "on_line PVert (LSlope s a) = False"
| "on_line (PAff x y) (LHoriz a) = (y = a)"
| "on_line (PInf t) (LHoriz a) = False"
| "on_line PVert (LHoriz a) = True"
| "on_line (PAff x y) LInfty = False"
| "on_line (PInf t) LInfty = True"
| "on_line PVert LInfty = True"

text \<open>
  The label of a field element (its index in the enumeration), the label of a point as
  the builder's comment gives it, the block of a line, and the lines in the order of the
  builder's three loops.
\<close>

definition field_index :: "'a list \<Rightarrow> 'a \<Rightarrow> int" where
  "field_index K x = int (the (relabel_dict K x))"

fun point_label :: "'a list \<Rightarrow> int \<Rightarrow> 'a ppoint \<Rightarrow> int" where
  "point_label K n (PAff x y) = field_index K x + n * field_index K y"
| "point_label K n (PInf s) = n\<^sup>2 + field_index K s"
| "point_label K n PVert = n\<^sup>2 + n"

fun line_block :: "'a::field list \<Rightarrow> 'a list \<Rightarrow> int \<Rightarrow> 'a pline \<Rightarrow> int list" where
  "line_block K Kiter n (LSlope s a) =
     map (\<lambda>y. field_index K (s * y + a) + n * field_index K y) Kiter @ [n\<^sup>2 + field_index K s]"
| "line_block K Kiter n (LHoriz a) =
     map (\<lambda>x. field_index K x + n * field_index K a) Kiter @ [n\<^sup>2 + n]"
| "line_block K Kiter n LInfty = line_inf n"

definition plane_lines :: "'a list \<Rightarrow> 'a pline list" where
  "plane_lines Kiter =
     map (\<lambda>(s, a). LSlope s a) (List.product Kiter Kiter) @ map LHoriz Kiter @ [LInfty]"

section \<open>Isomorphic designs, and the plane of order 3\<close>

text \<open>
  Two designs are isomorphic when a bijection between their points carries the blocks of
  the one onto the blocks of the other.
\<close>

definition design_isomorphic :: "design \<Rightarrow> design \<Rightarrow> bool" where
  "design_isomorphic D E \<longleftrightarrow>
     (\<exists>f. bij_betw f (set (pnts D)) (set (pnts E))
        \<and> (\<lambda>b. f ` set b) ` set (blcks D) = set ` set (blcks E))"

text \<open>
  The blocks of the Desarguesian plane of order 3 when the dictionary iterates in the
  order of the enumeration, the orthogonal array \<open>projective_plane_to_OA\<close> makes of it,
  and the blocks \<open>OA_to_projective_plane\<close> makes of that array.
\<close>

definition plane3_blcks :: "int list list" where
  "plane3_blcks =
     [[0, 3, 6, 9], [1, 4, 7, 9], [2, 5, 8, 9], [0, 4, 8, 10],
      [1, 5, 6, 10], [2, 3, 7, 10], [0, 5, 7, 11], [1, 3, 8, 11],
      [2, 4, 6, 11], [0, 1, 2, 12], [3, 4, 5, 12], [6, 7, 8, 12],
      [9, 10, 11, 12]]"

definition OA3 :: "int list list" where
  "OA3 = [[0, 0, 0, 0], [1, 1, 1, 0], [2, 2, 2, 0], [0, 1, 2, 1], [1, 2, 0, 1],
      [2, 0, 1, 1], [0, 2, 1, 2], [1, 0, 2, 2], [2, 1, 0, 2]]"

definition roundtrip3_blcks :: "int list list" where
  "roundtrip3_blcks =
     [[0, 1, 2, 3], [4, 5, 6, 3], [8, 9, 10, 3], [0, 5, 10, 7],
      [4, 9, 2, 7], [8, 1, 6, 7], [0, 9, 6, 11], [4, 1, 10, 11],
      [8, 5, 2, 11], [0, 1, 2, 12], [3, 4, 5, 12], [6, 7, 8, 12],
      [9, 10, 11, 12]]"

section \<open>The orthogonal array of a plane, with the blocks in a store\<close>

text \<open>
  In Python the blocks of \<open>pplane.blcks\<close> are list objects, and \<open>blk[:]\<close>, \<open>b.remove(pt)\<close> and
  \<open>OA.append(blk)\<close> copy, mutate and share them. Here the store holds the list objects
  by address; \<open>refs\<close> are the addresses of the blocks of the plane. The loop allocates
  the copy \<open>b\<close> at a fresh address and removes \<open>pt\<close> from it there; \<open>L\<close> and \<open>OA\<close> hold
  addresses. The rows of the result are new lists, which are returned as values. The
  function returns the final store with its result.
\<close>

type_synonym addr = nat

type_synonym heap = "int list list"

fun pencil_loop_store :: "int \<Rightarrow> int \<Rightarrow> addr list \<Rightarrow> heap \<Rightarrow> addr list \<Rightarrow> addr list
    \<Rightarrow> heap \<times> (error + addr list \<times> addr list)" where
  "pencil_loop_store n pt [] h L OA = (h, Inr (L, OA))"
| "pencil_loop_store n pt (blk # rest) h L OA =
     (if int (length (h ! blk)) \<noteq> n + 1 then (h, Inl AssertionError)
      else if pt \<in> set (h ! blk) then
        let b = length h;
            h = h @ [h ! blk];
            h = h[b := remove1 pt (h ! b)]
        in pencil_loop_store n pt rest h (L @ [b]) OA
      else pencil_loop_store n pt rest h L (OA @ [blk]))"

definition projective_plane_to_OA_store ::
  "(int list list \<Rightarrow> int \<Rightarrow> int \<Rightarrow> int \<Rightarrow> bool) \<Rightarrow> addr list \<Rightarrow> int option \<Rightarrow> bool \<Rightarrow> heap
     \<Rightarrow> heap \<times> (error + int list list)" where
  "projective_plane_to_OA_store is_orthogonal_array refs pt check h =
     (case refs of
        [] \<Rightarrow> (h, Inl IndexError)
      | r0 # _ \<Rightarrow>
          let n = int (length (h ! r0)) - 1
          in if int (length refs) \<noteq> n\<^sup>2 + n + 1 then (h, Inl AssertionError)
             else
               let pt = (case pt of None \<Rightarrow> n\<^sup>2 + n | Some p \<Rightarrow> p)
               in case pencil_loop_store n pt refs h [] [] of
                    (h, Inl e) \<Rightarrow> (h, Inl e)
                  | (h, Inr (L, OA)) \<Rightarrow>
                      if int (length L) \<noteq> n + 1 then (h, Inl AssertionError)
                      else
                        case oa_rows (pencil_relabel (map (\<lambda>a. h ! a) L)) (map (\<lambda>a. h ! a) OA) of
                          None \<Rightarrow> (h, Inl KeyError)
                        | Some OA \<Rightarrow>
                            let valid = (if check then is_orthogonal_array OA (n + 1) n 2 else True)
                            in (h, Inr OA))"

text \<open>The Fano plane of the module's documentation.\<close>

definition fano_blcks :: "int list list" where
  "fano_blcks = [[0, 1, 2], [0, 3, 4], [0, 5, 6], [1, 3, 5], [1, 4, 6], [2, 3, 6], [2, 4, 5]]"

section \<open>Projective planes as designs\<close>

text \<open>
  After its loop, \<open>projective_plane_to_OA\<close> holds in \<open>L\<close> the blocks through \<open>pt\<close>, with
  \<open>pt\<close> removed, and in \<open>OA\<close> the other blocks.
\<close>

definition pencil :: "int \<Rightarrow> int list list \<Rightarrow> int list list" where
  "pencil pt B = map (remove1 pt) (filter (\<lambda>b. pt \<in> set b) B)"

definition transversals :: "int \<Rightarrow> int list list \<Rightarrow> int list list" where
  "transversals pt B = filter (\<lambda>b. pt \<notin> set b) B"

text \<open>
  A projective plane of order \<open>n\<close>, as the specification defines it: a 2-design on
  \<open>n\<^sup>2 + n + 1\<close> points with as many blocks, each of \<open>n + 1\<close> points, any two blocks meeting in
  exactly one point and any two points lying in exactly one block.
\<close>

definition is_projective_plane :: "int \<Rightarrow> design \<Rightarrow> bool" where
  "is_projective_plane n D \<longleftrightarrow>
     1 \<le> n
   \<and> pnts D = range1 (n\<^sup>2 + n + 1)
   \<and> int (length (blcks D)) = n\<^sup>2 + n + 1
   \<and> (\<forall>b \<in> set (blcks D). int (length b) = n + 1 \<and> distinct b \<and> set b \<subseteq> set (pnts D))
   \<and> (\<forall>i \<in> {..<length (blcks D)}. \<forall>j \<in> {..<length (blcks D)}. i \<noteq> j \<longrightarrow>
         card (set (blcks D ! i) \<inter> set (blcks D ! j)) = 1)
   \<and> (\<forall>x \<in> set (pnts D). \<forall>y \<in> set (pnts D). x \<noteq> y \<longrightarrow>
         length (filter (\<lambda>b. x \<in> set b \<and> y \<in> set b) (blcks D)) = 1)"

text \<open>The same conditions on a list of blocks over a finite set of points.\<close>

definition plane_axioms :: "nat \<Rightarrow> int set \<Rightarrow> int list list \<Rightarrow> bool" where
  "plane_axioms N V B \<longleftrightarrow>
     1 \<le> N \<and> finite V \<and> card V = N * N + N + 1 \<and> length B = N * N + N + 1
   \<and> (\<forall>b \<in> set B. length b = Suc N \<and> distinct b \<and> set b \<subseteq> V)
   \<and> (\<forall>i < length B. \<forall>j < length B. i \<noteq> j \<longrightarrow> card (set (B ! i) \<inter> set (B ! j)) = 1)
   \<and> (\<forall>x \<in> V. \<forall>y \<in> V. x \<noteq> y \<longrightarrow> length (filter (\<lambda>b. x \<in> set b \<and> y \<in> set b) B) = 1)"

section \<open>Properties\<close>

subsection \<open>The existence oracle\<close>

lemma sum_of_two_squares_iff: "sum_of_two_squares n \<longleftrightarrow> (\<exists>a b::int. n = a\<^sup>2 + b\<^sup>2)"
proof
  assume "sum_of_two_squares n"
  then obtain a b :: nat where "int (a\<^sup>2 + b\<^sup>2) = n"
    by (auto simp: sum_of_two_squares_def)
  then have "n = (int a)\<^sup>2 + (int b)\<^sup>2" by simp
  then show "\<exists>a b::int. n = a\<^sup>2 + b\<^sup>2" by blast
next
  assume "\<exists>a b::int. n = a\<^sup>2 + b\<^sup>2"
  then obtain a b :: int where n: "n = a\<^sup>2 + b\<^sup>2" by blast
  define a' b' where "a' = nat \<bar>a\<bar>" and "b' = nat \<bar>b\<bar>"
  have eq: "int (a'\<^sup>2 + b'\<^sup>2) = n" using n by (simp add: a'_def b'_def)
  have "a' \<le> a'\<^sup>2" "b' \<le> b'\<^sup>2" by (simp_all add: power2_nat_le_imp_le)
  then have "a' \<le> a'\<^sup>2 + b'\<^sup>2" "b' \<le> a'\<^sup>2 + b'\<^sup>2" by linarith+
  moreover have "nat n = a'\<^sup>2 + b'\<^sup>2" using eq by (metis nat_int)
  ultimately have "a' \<in> {0..nat n}" "b' \<in> {0..nat n}" by auto
  then show "sum_of_two_squares n"
    unfolding sum_of_two_squares_def using eq by blast
qed

lemma is_prime_power_iff:
  "is_prime_power n \<longleftrightarrow> (\<exists>p k. is_prime p \<and> 1 \<le> k \<and> n = int (p ^ k))"
proof
  assume "is_prime_power n"
  then obtain p k where "is_prime p" "k \<in> {1..nat n}" "int (p ^ k) = n"
    unfolding is_prime_power_def by blast
  then have "is_prime p \<and> 1 \<le> k \<and> n = int (p ^ k)" by simp
  then show "\<exists>p k. is_prime p \<and> 1 \<le> k \<and> n = int (p ^ k)" by blast
next
  assume "\<exists>p k. is_prime p \<and> 1 \<le> k \<and> n = int (p ^ k)"
  then obtain p k where pk: "is_prime p" "1 \<le> k" "n = int (p ^ k)" by blast
  then have p2: "2 \<le> p" by (simp add: is_prime_def)
  have nn: "nat n = p ^ k" using pk(3) by (metis nat_int)
  have "p ^ 1 \<le> p ^ k" using pk(2) p2 by (intro power_increasing) simp_all
  then have a: "p \<in> {2..nat n}" using p2 nn by simp
  have "k < 2 ^ k" by (rule less_exp)
  also have "(2::nat) ^ k \<le> p ^ k" using p2 by (rule power_mono) simp
  finally have b: "k \<in> {1..nat n}" using pk(2) nn by simp
  have "int (p ^ k) = n" using pk(3) by simp
  with pk(1) a b show "is_prime_power n"
    unfolding is_prime_power_def by blast
qed

lemma two_squares_small:
  fixes a b :: nat
  assumes "a\<^sup>2 + b\<^sup>2 = n" "n < 16"
  shows "a \<in> {0, 1, 2, 3} \<and> b \<in> {0, 1, 2, 3}"
proof -
  have "a\<^sup>2 < 4\<^sup>2" "b\<^sup>2 < 4\<^sup>2" using assms by simp_all
  then have "a < 4" "b < 4" using power2_less_imp_less [of a 4] power2_less_imp_less [of b 4] by blast+
  then show ?thesis by auto
qed

lemma not_two_squares_nat: "\<not> (\<exists>a b::nat. a\<^sup>2 + b\<^sup>2 = 6)" "\<not> (\<exists>a b::nat. a\<^sup>2 + b\<^sup>2 = 14)"
proof -
  show "\<not> (\<exists>a b::nat. a\<^sup>2 + b\<^sup>2 = 6)"
  proof
    assume "\<exists>a b::nat. a\<^sup>2 + b\<^sup>2 = 6"
    then obtain a b :: nat where ab: "a\<^sup>2 + b\<^sup>2 = 6" by blast
    from two_squares_small [OF ab] ab show False by auto
  qed
  show "\<not> (\<exists>a b::nat. a\<^sup>2 + b\<^sup>2 = 14)"
  proof
    assume "\<exists>a b::nat. a\<^sup>2 + b\<^sup>2 = 14"
    then obtain a b :: nat where ab: "a\<^sup>2 + b\<^sup>2 = 14" by blast
    from two_squares_small [OF ab] ab show False by auto
  qed
qed

lemma not_two_squares_6_14: "\<not> sum_of_two_squares 6" "\<not> sum_of_two_squares 14"
proof -
  show "\<not> sum_of_two_squares 6"
  proof
    assume "sum_of_two_squares 6"
    then obtain a b :: nat where "int (a\<^sup>2 + b\<^sup>2) = 6"
      unfolding sum_of_two_squares_def by blast
    then have "a\<^sup>2 + b\<^sup>2 = 6" by linarith
    with not_two_squares_nat(1) show False by blast
  qed
  show "\<not> sum_of_two_squares 14"
  proof
    assume "sum_of_two_squares 14"
    then obtain a b :: nat where "int (a\<^sup>2 + b\<^sup>2) = 14"
      unfolding sum_of_two_squares_def by blast
    then have "a\<^sup>2 + b\<^sup>2 = 14" by linarith
    with not_two_squares_nat(2) show False by blast
  qed
qed

lemma two_squares_2_5: "sum_of_two_squares 2" "sum_of_two_squares 5"
proof -
  have "(2::int) = 1\<^sup>2 + 1\<^sup>2" "(5::int) = 1\<^sup>2 + 2\<^sup>2" by simp_all
  then show "sum_of_two_squares 2" "sum_of_two_squares 5"
    unfolding sum_of_two_squares_iff by blast+
qed

lemma is_prime_2_3_5: "is_prime 2" "is_prime 3" "is_prime 5"
proof -
  have "{2..<3::nat} = {2}" "{2..<5::nat} = {2,3,4}" by auto
  then show "is_prime 2" "is_prime 3" "is_prime 5"
    by (simp_all add: is_prime_def)
qed

lemma prime_power_2_3_4_5:
  "is_prime_power 2" "is_prime_power 3" "is_prime_power 4" "is_prime_power 5"
proof -
  have "is_prime 2 \<and> 1 \<le> (1::nat) \<and> (2::int) = int (2 ^ 1)" using is_prime_2_3_5 by simp
  then show "is_prime_power 2" unfolding is_prime_power_iff by blast
  have "is_prime 3 \<and> 1 \<le> (1::nat) \<and> (3::int) = int (3 ^ 1)" using is_prime_2_3_5 by simp
  then show "is_prime_power 3" unfolding is_prime_power_iff by blast
  have "is_prime 2 \<and> 1 \<le> (2::nat) \<and> (4::int) = int (2 ^ 2)" using is_prime_2_3_5 by simp
  then show "is_prime_power 4" unfolding is_prime_power_iff by blast
  have "is_prime 5 \<and> 1 \<le> (1::nat) \<and> (5::int) = int (5 ^ 1)" using is_prime_2_3_5 by simp
  then show "is_prime_power 5" unfolding is_prime_power_iff by blast
qed

lemma power_eq_bound:
  fixes p :: nat
  assumes "2 \<le> p" "p ^ k = n" "n < p ^ m"
  shows "k < m"
  using assms power_less_imp_less_exp [of p k m] by simp

lemma not_prime_mult: "2 \<le> a \<Longrightarrow> 2 \<le> b \<Longrightarrow> \<not> is_prime (a * b)"
proof -
  assume a: "2 \<le> a" and b: "2 \<le> b"
  have "a * 1 < a * b" using a b by (intro mult_strict_left_mono) simp_all
  then have "a \<in> {2..<a * b}" using a by simp
  moreover have "a dvd a * b" by simp
  ultimately show ?thesis unfolding is_prime_def by blast
qed

lemma not_prime_power_12: "\<not> is_prime_power 12"
proof
  assume "is_prime_power 12"
  then obtain p k where pk: "is_prime p" "1 \<le> k" "(12::int) = int (p ^ k)"
    unfolding is_prime_power_iff by blast
  then have e: "p ^ k = 12" by linarith
  have p2: "2 \<le> p" using pk(1) by (simp add: is_prime_def)
  have "p ^ 1 \<le> p ^ k" using pk(2) p2 by (intro power_increasing) simp_all
  then have "p \<le> 12" using e by simp
  with p2 have cases: "p \<in> {2, 3, 4, 5, 6, 7, 8, 9, 10, 11, 12}" by (simp; arith)
  have np: "\<not> is_prime 4" "\<not> is_prime 6" "\<not> is_prime 8" "\<not> is_prime 9"
      "\<not> is_prime 10" "\<not> is_prime 12"
    using not_prime_mult [of 2 2] not_prime_mult [of 2 3] not_prime_mult [of 2 4]
      not_prime_mult [of 3 3] not_prime_mult [of 2 5] not_prime_mult [of 2 6]
    by simp_all
  from cases np pk(1) have "p = 2 \<or> p = 3 \<or> p = 5 \<or> p = 7 \<or> p = 11" by auto
  then show False
  proof (elim disjE)
    assume p: "p = 2"
    have "k < 4" using power_eq_bound [of p k 12 4] e p by simp
    then have "k \<in> {0, 1, 2, 3}" by auto
    then show False using e p by auto
  next
    assume p: "p = 3"
    have "k < 3" using power_eq_bound [of p k 12 3] e p by simp
    then have "k \<in> {0, 1, 2}" by auto
    then show False using e p by auto
  next
    assume p: "p = 5"
    have "k < 2" using power_eq_bound [of p k 12 2] e p by simp
    then have "k \<in> {0, 1}" by auto
    then show False using e p by auto
  next
    assume p: "p = 7"
    have "k < 2" using power_eq_bound [of p k 12 2] e p by simp
    then have "k \<in> {0, 1}" by auto
    then show False using e p by auto
  next
    assume p: "p = 11"
    have "k < 2" using power_eq_bound [of p k 12 2] e p by simp
    then have "k \<in> {0, 1}" by auto
    then show False using e p by auto
  qed
qed


lemma Desarguesian_errors:
  "DesarguesianProjectivePlaneDesign FF iter chk n c = Inl e \<Longrightarrow> e \<in> {ValueError, KeyError, TypeError}"
  by (auto simp: DesarguesianProjectivePlaneDesign_def BlockDesign_def Let_def
      split: option.splits if_splits)

subsection \<open>The orthogonal array of a plane: the validation\<close>

text \<open>
  C10. With \<open>check=True\<close>, \<open>projective_plane_to_OA\<close> calls \<open>is_orthogonal_array\<close> and
  discards what it returns: whatever that function answers, the result (an array or an
  error) is the one obtained with \<open>check=False\<close>.
\<close>

theorem projective_plane_to_OA_check_discarded:
  "projective_plane_to_OA is_orthogonal_array pplane pt True
     = projective_plane_to_OA is_orthogonal_array' pplane pt False"
  unfolding projective_plane_to_OA_def Let_def by simp

subsection \<open>From an orthogonal array to a plane\<close>

lemma length_range2: "length (range2 a b) = nat (b - a)"
  by (simp add: range2_def)

lemma nth_range2: "i < nat (b - a) \<Longrightarrow> range2 a b ! i = a + int i"
  by (simp add: range2_def)

lemma length_range1: "length (range1 b) = nat b"
  by (simp add: range1_def length_range2)

lemma nth_range1: "i < nat b \<Longrightarrow> range1 b ! i = int i"
  by (simp add: range1_def nth_range2)

lemma order_count_nonneg: "0 \<le> (n::int)\<^sup>2 + n"
proof -
  have "0 \<le> n * (n + 1)"
    by (cases "0 \<le> n") (simp_all add: mult_nonpos_nonpos)
  then show ?thesis by (simp add: power2_eq_square algebra_simps)
qed

text \<open>
  C8, as the code has it. With \<open>n + 1\<close> the length of the first row,
  \<open>OA_to_projective_plane(OA)\<close> raises \<open>IndexError\<close> on the empty list and
  \<open>AssertionError\<close> when the number of rows differs from \<open>n\<^sup>2\<close>; the widths of the other
  rows are not looked at. Otherwise, when the validation is off or accepts, it returns a
  design on \<open>n\<^sup>2 + n + 1\<close> points whose blocks are one block per row, with the labels
  \<open>i + (n+1)*j\<close> for the entry \<open>j\<close> in column \<open>i\<close>, followed by the \<open>n + 1\<close> lines
  \<open>range(i*n, (i+1)*n)\<close> together with \<open>n\<^sup>2 + n\<close>, for \<open>i = 0..n\<close>.
\<close>

theorem OA_to_projective_plane_blocks:
  assumes OA: "OA = l0 # rest" and n: "n = int (length l0) - 1"
  shows "OA_to_projective_plane chk [] check = Inl IndexError
       \<and> (int (length OA) \<noteq> n\<^sup>2 \<longrightarrow> OA_to_projective_plane chk OA check = Inl AssertionError)
       \<and> (int (length OA) = n\<^sup>2 \<longrightarrow>
            (\<exists>D. OA_to_projective_plane chk OA False = Inr D
               \<and> OA_to_projective_plane chk OA True = (if chk D then Inr D else Inl TypeError)
               \<and> pnts D = range1 (n\<^sup>2 + n + 1)
               \<and> int (length (pnts D)) = n\<^sup>2 + n + 1
               \<and> int (length (blcks D)) = n\<^sup>2 + (n + 1)
               \<and> (\<forall>r < length OA.
                     blcks D ! r = map (\<lambda>(i, j). int i + (n + 1) * j) (enumerate 0 (OA ! r)))
               \<and> (\<forall>i < nat (n + 1).
                     blcks D ! (length OA + i)
                       = range2 (int i * n) ((int i + 1) * n) @ [n\<^sup>2 + n])))"
proof -
  define rows where "rows = map (\<lambda>l. map (\<lambda>(i, j). int i + (n + 1) * j) (enumerate 0 l)) OA"
  define pencil where
    "pencil = map (\<lambda>i. range2 (i * n) ((i + 1) * n) @ [n\<^sup>2 + n]) (range1 (n + 1))"
  define D where "D = \<lparr>pnts = range1 (n\<^sup>2 + n + 1), blcks = rows @ pencil\<rparr>"
  have n1: "0 \<le> n + 1" using n by simp
  have run: "int (length OA) = n\<^sup>2 \<Longrightarrow>
      OA_to_projective_plane chk OA c = BlockDesign chk (n\<^sup>2 + n + 1) (rows @ pencil) c" for c
    using OA n by (simp add: OA_to_projective_plane_def Let_def rows_def pencil_def)
  have e1: "OA_to_projective_plane chk [] check = Inl IndexError"
    by (simp add: OA_to_projective_plane_def)
  have e2: "int (length OA) \<noteq> n\<^sup>2 \<longrightarrow> OA_to_projective_plane chk OA check = Inl AssertionError"
    using OA n by (simp add: OA_to_projective_plane_def Let_def)
  have ok: "\<exists>D. OA_to_projective_plane chk OA False = Inr D
               \<and> OA_to_projective_plane chk OA True = (if chk D then Inr D else Inl TypeError)
               \<and> pnts D = range1 (n\<^sup>2 + n + 1)
               \<and> int (length (pnts D)) = n\<^sup>2 + n + 1
               \<and> int (length (blcks D)) = n\<^sup>2 + (n + 1)
               \<and> (\<forall>r < length OA.
                     blcks D ! r = map (\<lambda>(i, j). int i + (n + 1) * j) (enumerate 0 (OA ! r)))
               \<and> (\<forall>i < nat (n + 1).
                     blcks D ! (length OA + i)
                       = range2 (int i * n) ((int i + 1) * n) @ [n\<^sup>2 + n])"
    if len: "int (length OA) = n\<^sup>2"
  proof (intro exI [of _ D] conjI)
    show "OA_to_projective_plane chk OA False = Inr D"
      by (simp add: run [OF len] BlockDesign_def D_def)
    show "OA_to_projective_plane chk OA True = (if chk D then Inr D else Inl TypeError)"
      by (simp add: run [OF len] BlockDesign_def D_def)
    show "pnts D = range1 (n\<^sup>2 + n + 1)" by (simp add: D_def)
    show "int (length (pnts D)) = n\<^sup>2 + n + 1"
      using order_count_nonneg [of n] by (simp add: D_def length_range1)
    show "int (length (blcks D)) = n\<^sup>2 + (n + 1)"
      using len n1 by (simp add: D_def rows_def pencil_def length_range1)
    show "\<forall>r < length OA.
            blcks D ! r = map (\<lambda>(i, j). int i + (n + 1) * j) (enumerate 0 (OA ! r))"
      by (simp add: D_def rows_def nth_append)
    show "\<forall>i < nat (n + 1).
            blcks D ! (length OA + i) = range2 (int i * n) ((int i + 1) * n) @ [n\<^sup>2 + n]"
      by (simp add: D_def rows_def pencil_def nth_append length_range1 nth_range1)
  qed
  from e1 e2 ok show ?thesis by blast
qed

theorem OA_to_projective_plane_blocks_witness:
  "\<exists>D. OA_to_projective_plane strict_checker [[0, 0, 0], [0, 1, 1], [1, 0, 1], [1, 1, 0]] False = Inr D
     \<and> OA_to_projective_plane strict_checker [[0, 0, 0], [0, 1, 1], [1, 0, 1], [1, 1, 0]] True = Inl TypeError
     \<and> length (blcks D) = 7
     \<and> blcks D ! 1 = [0, 4, 5]
     \<and> blcks D ! 5 = [2, 3, 6]"
proof -
  have "int (length [[0::int, 0, 0], [0, 1, 1], [1, 0, 1], [1, 1, 0]]) = 2\<^sup>2" by simp
  with OA_to_projective_plane_blocks [of "[[0, 0, 0], [0, 1, 1], [1, 0, 1], [1, 1, 0]]"
      "[0, 0, 0]" "[[0, 1, 1], [1, 0, 1], [1, 1, 0]]" 2 strict_checker True]
  obtain D where D:
    "OA_to_projective_plane strict_checker [[0, 0, 0], [0, 1, 1], [1, 0, 1], [1, 1, 0]] False = Inr D"
    "OA_to_projective_plane strict_checker [[0, 0, 0], [0, 1, 1], [1, 0, 1], [1, 1, 0]] True
       = (if strict_checker D then Inr D else Inl TypeError)"
    "int (length (blcks D)) = 2\<^sup>2 + (2 + 1)"
    "\<forall>r < length [[0::int, 0, 0], [0, 1, 1], [1, 0, 1], [1, 1, 0]].
       blcks D ! r = map (\<lambda>(i, j). int i + (2 + 1) * j)
          (enumerate 0 ([[0, 0, 0], [0, 1, 1], [1, 0, 1], [1, 1, 0]] ! r))"
    "\<forall>i < nat (2 + 1).
       blcks D ! (length [[0::int, 0, 0], [0, 1, 1], [1, 0, 1], [1, 1, 0]] + i)
         = range2 (int i * 2) ((int i + 1) * 2) @ [2\<^sup>2 + 2]"
    by auto
  have "blcks D ! 1 = [0, 4, 5]" using D(4) [rule_format, of 1] by simp
  moreover have "blcks D ! 5 = [2, 3, 6]" using D(5) [rule_format, of 1]
    by (simp add: range2_def upto_rec1 eval_nat_numeral)
  moreover have "length (blcks D) = 7" using D(3) by simp
  ultimately show ?thesis using D(1,2) by (auto simp: strict_checker_def)
qed

text \<open>
  An array whose last row is too short is accepted: no width but the first row's is read.
\<close>

theorem OA_to_projective_plane_ragged_counterexample:
  "OA_to_projective_plane strict_checker [[0, 0, 0], [0, 1, 1], [1, 0, 1], [1, 1]] False
     = Inr \<lparr>pnts = [0, 1, 2, 3, 4, 5, 6],
            blcks = [[0, 1, 2], [0, 4, 5], [3, 1, 5], [3, 4], [0, 1, 6], [2, 3, 6], [4, 5, 6]]\<rparr>"
  by (simp add: OA_to_projective_plane_def BlockDesign_def Let_def range1_def range2_def
      upto_rec1)

subsection \<open>Design parameters\<close>

lemma binomial_pos: "0 \<le> m \<Longrightarrow> m \<le> x \<Longrightarrow> 0 < binomial x m"
  by (simp add: binomial_def nat_le_eq_zle)

lemma floor_rat_div: "\<lfloor>rat_of_int a / rat_of_int b\<rfloor> = a div b"
  by (metis floor_divide_of_int_eq)

text \<open>
  C6. For positive integers \<open>t, v, k, L\<close> with \<open>t \<le> k \<le> v\<close>, \<open>tdesign_params\<close>
  returns \<open>(t, v, b, r, k, L)\<close> with \<open>b\<close> the floor of the exact quotient
  \<open>L * C(v,t) / C(k,t)\<close> and \<open>r\<close> the floor of \<open>L * C(v-1,t-1) / C(k-1,t-1)\<close>;
  and \<open>tdesign_params(2, 7, 3, 1) = (2, 7, 7, 3, 3, 1)\<close>.
\<close>

theorem tdesign_params_floor:
  assumes "0 < t" "t \<le> k" "k \<le> v" "0 < L"
  shows "tdesign_params t v k L =
           Inr (t, v,
                \<lfloor>rat_of_int L * of_nat (nat v choose nat t) / of_nat (nat k choose nat t)\<rfloor>,
                \<lfloor>rat_of_int L * of_nat (nat (v - 1) choose nat (t - 1))
                    / of_nat (nat (k - 1) choose nat (t - 1))\<rfloor>,
                k, L)
         \<and> tdesign_params 2 7 3 1 = Inr (2, 7, 7, 3, 3, 1)"
proof -
  have y1: "binomial k t \<noteq> 0"
    using binomial_pos [of t k] assms by simp
  have y2: "binomial (k - 1) (t - 1) \<noteq> 0"
    using binomial_pos [of "t - 1" "k - 1"] assms by simp
  have b: "\<lfloor>rat_of_int L * of_nat (nat v choose nat t) / of_nat (nat k choose nat t)\<rfloor>
             = (L * binomial v t) div binomial k t"
    using floor_rat_div [of "L * binomial v t" "binomial k t"]
    by (simp add: binomial_def)
  have r: "\<lfloor>rat_of_int L * of_nat (nat (v - 1) choose nat (t - 1))
                    / of_nat (nat (k - 1) choose nat (t - 1))\<rfloor>
             = \<lfloor>rat_of_int (L * binomial (v - 1) (t - 1)) / rat_of_int (binomial (k - 1) (t - 1))\<rfloor>"
    by (simp add: binomial_def)
  have gen: "tdesign_params t v k L =
           Inr (t, v,
                \<lfloor>rat_of_int L * of_nat (nat v choose nat t) / of_nat (nat k choose nat t)\<rfloor>,
                \<lfloor>rat_of_int L * of_nat (nat (v - 1) choose nat (t - 1))
                    / of_nat (nat (k - 1) choose nat (t - 1))\<rfloor>,
                k, L)"
    unfolding b r using y1 y2 by (simp add: tdesign_params_def Let_def)
  have c73: "(7::nat) choose 2 = 21" "(3::nat) choose 2 = 3"
    by (simp_all add: numeral_2_eq_2 numeral_3_eq_3 eval_nat_numeral binomial_Suc_Suc)
  have ex: "tdesign_params 2 7 3 1 = Inr (2, 7, 7, 3, 3, 1)"
    by (simp add: tdesign_params_def binomial_def Let_def c73)
  show ?thesis using gen ex by simp
qed

theorem tdesign_params_floor_witness:
  "tdesign_params 2 9 3 1 = Inr (2, 9, 12, 4, 3, 1)"
proof -
  have c: "(9::nat) choose 2 = 36" "(3::nat) choose 2 = 3" "(8::nat) choose 1 = 8"
    by (simp_all add: eval_nat_numeral binomial_Suc_Suc)
  have "(0::int) < 2" "(2::int) \<le> 3" "(3::int) \<le> 9" "(0::int) < 1" by simp_all
  from tdesign_params_floor [OF this] show ?thesis
    by (simp add: c)
qed

subsection \<open>Projective geometry designs\<close>

lemma gf2_plane_subspaces:
  "gf2_subspaces () 2 1 = [[[False, False], [True, False]], [[False, False], [False, True]],
      [[False, False], [True, True]]]"
  "gf2_subspaces () 2 2 = [[[False, False], [True, False], [False, True], [True, True]]]"
  by code_simp+

text \<open>
  C5, as the code has it. The block list of \<open>ProjectiveGeometryDesign(n, d, F)\<close> has one
  block per point (1-dimensional subspace), and the block of point \<open>j\<close> lists the indices
  \<open>i\<close> of the flats (\<open>(d+1)\<close>-dimensional subspaces) that contain it: the incidence is
  the transpose of the one the documentation describes. Over the field with two elements,
  \<open>n = d = 1\<close> gives the three blocks \<open>[0], [0], [0]\<close> where there is one flat, which
  contains the three points.
\<close>

theorem ProjectiveGeometryDesign_block_per_point:
  assumes "ProjectiveGeometryDesign order subspaces is_subspace chk n d F = Inr D"
  shows "length (blcks D) = length (subspaces F (n + 1) 1)
       \<and> (\<forall>j < length (blcks D).
             blcks D ! j = map int (filter
                (\<lambda>i. is_subspace (subspaces F (n + 1) 1 ! j) (subspaces F (n + 1) (d + 1) ! i))
                [0..<length (subspaces F (n + 1) (d + 1))]))"
  using assms
  by (auto simp: ProjectiveGeometryDesign_def BlockDesign_def Let_def split: if_splits)

theorem ProjectiveGeometryDesign_block_per_point_witness:
  "ProjectiveGeometryDesign gf2_order gf2_subspaces gf2_is_subspace lenient_checker 1 1 ()
     = Inr \<lparr>pnts = [0, 1, 2], blcks = [[0], [0], [0]]\<rparr>
   \<and> length (gf2_subspaces () (1 + 1) (1 + 1)) = 1
   \<and> length (gf2_subspaces () (1 + 1) 1) = 3"
proof -
  have run: "ProjectiveGeometryDesign gf2_order gf2_subspaces gf2_is_subspace lenient_checker 1 1 ()
     = Inr \<lparr>pnts = [0, 1, 2], blcks = [[0], [0], [0]]\<rparr>"
    by (simp add: ProjectiveGeometryDesign_def BlockDesign_def Let_def gf2_plane_subspaces
        gf2_order_def gf2_is_subspace_def lenient_checker_def range1_def range2_def upto_rec1)
  from ProjectiveGeometryDesign_block_per_point [OF run]
  have "length (gf2_subspaces () (1 + 1) 1) = 3" by simp
  then show ?thesis using run by (simp add: gf2_plane_subspaces)
qed

subsection \<open>The Desarguesian plane\<close>

lemma slopes_meet:
  fixes s :: "'a::field"
  assumes "s \<noteq> s'"
  shows "s * y + a = s' * y + a' \<longleftrightarrow> y = (a' - a) / (s - s')"
proof -
  have nz: "s - s' \<noteq> 0" using assms by simp
  have "s * y + a = s' * y + a' \<longleftrightarrow> y * (s - s') = a' - a"
    by (auto simp: algebra_simps)
  also have "\<dots> \<longleftrightarrow> y = (a' - a) / (s - s')"
    using nonzero_eq_divide_eq [OF nz, of y "a' - a"] by simp
  finally show ?thesis .
qed

lemma two_lines_meet:
  fixes l l' :: "'a::field pline"
  assumes "l \<noteq> l'"
  shows "\<exists>!p. on_line p l \<and> on_line p l'"
proof (cases l; cases l')
  fix s a s' a'
  assume l: "l = LSlope s a" and l': "l' = LSlope s' a'"
  show ?thesis
  proof (cases "s = s'")
    case True
    with assms l l' have "a \<noteq> a'" by simp
    show ?thesis
    proof (rule ex1I [of _ "PInf s"])
      show "on_line (PInf s) l \<and> on_line (PInf s) l'" using l l' True by simp
      fix p assume "on_line p l \<and> on_line p l'"
      then show "p = PInf s" using l l' True \<open>a \<noteq> a'\<close> by (cases p) auto
    qed
  next
    case False
    let ?y = "(a' - a) / (s - s')"
    show ?thesis
    proof (rule ex1I [of _ "PAff (s * ?y + a) ?y"])
      show "on_line (PAff (s * ?y + a) ?y) l \<and> on_line (PAff (s * ?y + a) ?y) l'"
        using l l' slopes_meet [OF False, of ?y a a'] by simp
      fix p assume "on_line p l \<and> on_line p l'"
      then show "p = PAff (s * ?y + a) ?y"
      proof (cases p)
        case (PAff x y)
        with \<open>on_line p l \<and> on_line p l'\<close> l l'
        have x: "x = s * y + a" and "s * y + a = s' * y + a'" by auto
        then have "y = ?y" using slopes_meet [OF False, of y a a'] by simp
        with x PAff show ?thesis by simp
      next
        case (PInf t)
        with \<open>on_line p l \<and> on_line p l'\<close> l l' False show ?thesis by auto
      next
        case PVert
        with \<open>on_line p l \<and> on_line p l'\<close> l show ?thesis by auto
      qed
    qed
  qed
next
  fix s a b
  assume l: "l = LSlope s a" and l': "l' = LHoriz b"
  show ?thesis
  proof (rule ex1I [of _ "PAff (s * b + a) b"])
    show "on_line (PAff (s * b + a) b) l \<and> on_line (PAff (s * b + a) b) l'"
      using l l' by simp
    fix p assume "on_line p l \<and> on_line p l'"
    then show "p = PAff (s * b + a) b" using l l' by (cases p) auto
  qed
next
  fix s a
  assume l: "l = LSlope s a" and l': "l' = LInfty"
  show ?thesis
  proof (rule ex1I [of _ "PInf s"])
    show "on_line (PInf s) l \<and> on_line (PInf s) l'" using l l' by simp
    fix p assume "on_line p l \<and> on_line p l'"
    then show "p = PInf s" using l l' by (cases p) auto
  qed
next
  fix s a b
  assume l': "l' = LSlope s a" and l: "l = LHoriz b"
  show ?thesis
  proof (rule ex1I [of _ "PAff (s * b + a) b"])
    show "on_line (PAff (s * b + a) b) l \<and> on_line (PAff (s * b + a) b) l'"
      using l l' by simp
    fix p assume "on_line p l \<and> on_line p l'"
    then show "p = PAff (s * b + a) b" using l l' by (cases p) auto
  qed
next
  fix a b :: 'a
  assume l: "l = LHoriz a" and l': "l' = LHoriz b"
  with assms have "a \<noteq> b" by simp
  show ?thesis
  proof (rule ex1I [of _ PVert])
    show "on_line PVert l \<and> on_line PVert l'" using l l' by simp
    fix p assume "on_line p l \<and> on_line p l'"
    then show "p = PVert" using l l' \<open>a \<noteq> b\<close> by (cases p) auto
  qed
next
  fix a :: 'a
  assume l: "l = LHoriz a" and l': "l' = LInfty"
  show ?thesis
  proof (rule ex1I [of _ PVert])
    show "on_line PVert l \<and> on_line PVert l'" using l l' by simp
    fix p assume "on_line p l \<and> on_line p l'"
    then show "p = PVert" using l l' by (cases p) auto
  qed
next
  fix s a
  assume l': "l' = LSlope s a" and l: "l = LInfty"
  show ?thesis
  proof (rule ex1I [of _ "PInf s"])
    show "on_line (PInf s) l \<and> on_line (PInf s) l'" using l l' by simp
    fix p assume "on_line p l \<and> on_line p l'"
    then show "p = PInf s" using l l' by (cases p) auto
  qed
next
  fix a :: 'a
  assume l': "l' = LHoriz a" and l: "l = LInfty"
  show ?thesis
  proof (rule ex1I [of _ PVert])
    show "on_line PVert l \<and> on_line PVert l'" using l l' by simp
    fix p assume "on_line p l \<and> on_line p l'"
    then show "p = PVert" using l l' by (cases p) auto
  qed
next
  assume "l = LInfty" "l' = LInfty"
  with assms show ?thesis by simp
qed

lemma fold_relabel_notin:
  "x \<notin> set K \<Longrightarrow> fold (\<lambda>(i, x) m. m(x \<mapsto> i)) (enumerate k K) m x = m x"
  by (induction K arbitrary: k m) auto

lemma fold_relabel_nth:
  "distinct K \<Longrightarrow> i < length K \<Longrightarrow>
     fold (\<lambda>(i, x) m. m(x \<mapsto> i)) (enumerate k K) m (K ! i) = Some (k + i)"
proof (induction K arbitrary: k m i)
  case Nil
  then show ?case by simp
next
  case (Cons x xs)
  show ?case
  proof (cases i)
    case 0
    then show ?thesis
      using Cons.prems fold_relabel_notin [of x xs "Suc k" "m(x \<mapsto> k)"]
      by (simp del: fun_upd_apply) simp
  next
    case (Suc j)
    then show ?thesis using Cons.prems Cons.IH [of j "Suc k"] by simp
  qed
qed

lemma relabel_dict_nth:
  "distinct K \<Longrightarrow> i < length K \<Longrightarrow> relabel_dict K (K ! i) = Some i"
  using fold_relabel_nth [of K i 0 Map.empty] by (simp add: relabel_dict_def)

lemma relabel_dict_dom: "dom (relabel_dict K) = set K"
proof -
  have "dom (fold (\<lambda>(i, x) m. m(x \<mapsto> i)) (enumerate k K) m) = dom m \<union> set K" for k m
    by (induction K arbitrary: k m) auto
  then show ?thesis by (simp add: relabel_dict_def)
qed

lemma field_index_nth:
  "distinct K \<Longrightarrow> i < length K \<Longrightarrow> field_index K (K ! i) = int i"
  by (simp add: field_index_def relabel_dict_nth)

lemma field_index_ex:
  assumes "distinct K" "x \<in> set K"
  shows "\<exists>i < length K. K ! i = x \<and> field_index K x = int i \<and> relabel_dict K x = Some i"
proof -
  from assms(2) obtain i where "i < length K" "K ! i = x" by (auto simp: in_set_conv_nth)
  then show ?thesis using field_index_nth [OF assms(1), of i] relabel_dict_nth [OF assms(1), of i]
    by auto
qed

lemma field_index_range:
  assumes "distinct K" "x \<in> set K"
  shows "0 \<le> field_index K x \<and> field_index K x < int (length K)"
  using field_index_ex [OF assms] by auto

lemma field_index_inj:
  assumes "distinct K" "x \<in> set K" "y \<in> set K" "field_index K x = field_index K y"
  shows "x = y"
  using field_index_ex [OF assms(1,2)] field_index_ex [OF assms(1,3)] assms(4) by auto

lemma relabel_dict_Some:
  assumes "distinct K" "x \<in> set K"
  shows "relabel_dict K x = Some (nat (field_index K x))"
  using field_index_ex [OF assms] by auto

lemma base_n_bounds:
  fixes a b n :: int
  assumes "0 \<le> a" "a < n" "0 \<le> b" "b < n"
  shows "0 \<le> a + n * b" "a + n * b < n\<^sup>2"
proof -
  have n0: "0 \<le> n" using assms by simp
  show "0 \<le> a + n * b" using assms n0 by simp
  have "n * b \<le> n * (n - 1)" using assms n0 by (intro mult_left_mono) simp_all
  then show "a + n * b < n\<^sup>2" using assms by (simp add: power2_eq_square algebra_simps)
qed

lemma base_n_unique:
  fixes a b a' b' n :: int
  assumes "0 \<le> a" "a < n" "0 \<le> a'" "a' < n" "a + n * b = a' + n * b'"
  shows "a = a' \<and> b = b'"
proof -
  have "(a + n * b) mod n = a" "(a' + n * b') mod n = a'" using assms(1-4) by simp_all
  then have a: "a = a'" using assms(5) by simp
  then have "n * b = n * b'" using assms(5) by simp
  moreover have "n \<noteq> 0" using assms by auto
  ultimately show ?thesis using a by simp
qed

lemma field_index_image:
  assumes "distinct K" "set K = UNIV"
  shows "range (field_index K) = {0..<int (length K)}"
proof (rule set_eqI)
  fix i
  show "i \<in> range (field_index K) \<longleftrightarrow> i \<in> {0..<int (length K)}"
  proof
    assume "i \<in> range (field_index K)"
    then obtain x where "i = field_index K x" by blast
    then show "i \<in> {0..<int (length K)}"
      using field_index_range [OF assms(1), of x] assms(2) by simp
  next
    assume "i \<in> {0..<int (length K)}"
    then have "nat i < length K" "int (nat i) = i" by auto
    then have "field_index K (K ! nat i) = i"
      using field_index_nth [OF assms(1), of "nat i"] by simp
    then show "i \<in> range (field_index K)" by (metis rangeI)
  qed
qed

lemma point_label_range:
  assumes "distinct K" "set K = UNIV" "n = int (length K)"
  shows "0 \<le> point_label K n p \<and> point_label K n p \<le> n\<^sup>2 + n"
proof -
  have r: "0 \<le> field_index K x \<and> field_index K x < n" for x
    using field_index_range [OF assms(1), of x] assms(2,3) by simp
  show ?thesis
  proof (cases p)
    case (PAff x y)
    then show ?thesis
      using base_n_bounds [of "field_index K x" n "field_index K y"] r [of x] r [of y] by simp
  next
    case (PInf s)
    then show ?thesis using r [of s] by simp
  next
    case PVert
    then show ?thesis using assms(3) by simp
  qed
qed

lemma point_label_inj:
  assumes "distinct K" "set K = UNIV" "n = int (length K)"
  shows "inj (point_label K n)"
proof (rule injI)
  fix p q assume eq: "point_label K n p = point_label K n q"
  have r: "0 \<le> field_index K x \<and> field_index K x < n" for x
    using field_index_range [OF assms(1), of x] assms(2,3) by simp
  have inj: "field_index K x = field_index K y \<Longrightarrow> x = y" for x y
    using field_index_inj [OF assms(1), of x y] assms(2) by simp
  have aff: "0 \<le> point_label K n (PAff x y) \<and> point_label K n (PAff x y) < n\<^sup>2" for x y
    using base_n_bounds [of "field_index K x" n "field_index K y"] r [of x] r [of y] by simp
  have inf: "n\<^sup>2 \<le> point_label K n (PInf s) \<and> point_label K n (PInf s) < n\<^sup>2 + n" for s
    using r [of s] by simp
  show "p = q"
  proof (cases p)
    case p: (PAff x y)
    show ?thesis
    proof (cases q)
      case q: (PAff x' y')
      have "field_index K x = field_index K x' \<and> field_index K y = field_index K y'"
        using base_n_unique [of "field_index K x" n "field_index K x'" "field_index K y" "field_index K y'"]
          r [of x] r [of x'] eq p q by simp
      then show ?thesis using inj p q by blast
    next
      case q: (PInf s)
      then show ?thesis using eq p aff [of x y] inf [of s] by simp
    next
      case q: PVert
      then show ?thesis using eq p aff [of x y] r [of x] by simp
    qed
  next
    case p: (PInf s)
    show ?thesis
    proof (cases q)
      case q: (PAff x' y')
      then show ?thesis using eq p aff [of x' y'] inf [of s] by simp
    next
      case q: (PInf s')
      then show ?thesis using eq p inj [of s s'] by simp
    next
      case q: PVert
      then show ?thesis using eq p inf [of s] by simp
    qed
  next
    case p: PVert
    show ?thesis
    proof (cases q)
      case q: (PAff x' y')
      then show ?thesis using eq p aff [of x' y'] r [of x'] by simp
    next
      case q: (PInf s')
      then show ?thesis using eq p inf [of s'] by simp
    next
      case q: PVert
      then show ?thesis using p by simp
    qed
  qed
qed

lemma on_line_slope: "{p. on_line p (LSlope s a)} = range (\<lambda>y. PAff (s * y + a) y) \<union> {PInf s}"
proof (rule set_eqI)
  fix p show "p \<in> {p. on_line p (LSlope s a)} \<longleftrightarrow> p \<in> range (\<lambda>y. PAff (s * y + a) y) \<union> {PInf s}"
    by (cases p) auto
qed

lemma on_line_horiz: "{p. on_line p (LHoriz a)} = range (\<lambda>x. PAff x a) \<union> {PVert}"
proof (rule set_eqI)
  fix p show "p \<in> {p. on_line p (LHoriz a)} \<longleftrightarrow> p \<in> range (\<lambda>x. PAff x a) \<union> {PVert}"
    by (cases p) auto
qed

lemma on_line_infty: "{p. on_line p LInfty} = range PInf \<union> {PVert}"
proof (rule set_eqI)
  fix p show "p \<in> {p::'a::field ppoint. on_line p LInfty} \<longleftrightarrow> p \<in> range PInf \<union> {PVert}"
    by (cases p) auto
qed

lemma set_range1: "set (range1 b) = {0..<b}"
  by (auto simp: range1_def range2_def)

lemma set_line_inf: "set (line_inf n) = {n\<^sup>2..n\<^sup>2 + n}"
proof -
  have "set (line_inf n) = (\<lambda>i. n\<^sup>2 + i) ` {0..<n + 1}"
    by (simp add: line_inf_def set_range1)
  also have "\<dots> = {n\<^sup>2..n\<^sup>2 + n}"
  proof (rule set_eqI)
    fix k show "k \<in> (\<lambda>i. n\<^sup>2 + i) ` {0..<n + 1} \<longleftrightarrow> k \<in> {n\<^sup>2..n\<^sup>2 + n}"
    proof
      assume "k \<in> (\<lambda>i. n\<^sup>2 + i) ` {0..<n + 1}"
      then show "k \<in> {n\<^sup>2..n\<^sup>2 + n}" by auto
    next
      assume "k \<in> {n\<^sup>2..n\<^sup>2 + n}"
      then have "k - n\<^sup>2 \<in> {0..<n + 1}" "k = n\<^sup>2 + (k - n\<^sup>2)" by auto
      then show "k \<in> (\<lambda>i. n\<^sup>2 + i) ` {0..<n + 1}" by (rule_tac image_eqI)
    qed
  qed
  finally show ?thesis .
qed

lemma set_line_block:
  assumes "distinct K" "set K = UNIV" "n = int (length K)" "set Kiter = UNIV"
  shows "set (line_block K Kiter n l) = point_label K n ` {p. on_line p l}"
proof (cases l)
  case (LSlope s a)
  have "point_label K n ` range (\<lambda>y. PAff (s * y + a) y)
          = range (\<lambda>y. field_index K (s * y + a) + n * field_index K y)"
    by (simp add: image_image)
  then show ?thesis using LSlope assms(4) by (simp add: on_line_slope image_Un)
next
  case (LHoriz a)
  have "point_label K n ` range (\<lambda>x. PAff x a) = range (\<lambda>x. field_index K x + n * field_index K a)"
    by (simp add: image_image)
  then show ?thesis using LHoriz assms(4) by (simp add: on_line_horiz image_Un)
next
  case LInfty
  have "point_label K n ` range PInf = (\<lambda>i. n\<^sup>2 + i) ` range (field_index K)"
    by (simp add: image_image)
  also have "\<dots> = (\<lambda>i. n\<^sup>2 + i) ` {0..<n}"
    using field_index_image [OF assms(1,2)] assms(3) by simp
  also have "\<dots> = {n\<^sup>2..<n\<^sup>2 + n}"
    by (simp add: image_add_atLeastLessThan add.commute)
  finally have "point_label K n ` {p. on_line p (LInfty :: 'a pline)} = insert (n\<^sup>2 + n) {n\<^sup>2..<n\<^sup>2 + n}"
    by (simp add: on_line_infty image_Un)
  also have "\<dots> = {n\<^sup>2..n\<^sup>2 + n}" using assms(3) by auto
  finally show ?thesis using LInfty by (simp add: set_line_inf)
qed

lemma those_map_Some:
  "(\<And>x. x \<in> set xs \<Longrightarrow> f x = Some (g x)) \<Longrightarrow> those (map f xs) = Some (map g xs)"
  by (induction xs) simp_all

lemma line_sa_eq:
  assumes "distinct K" "set K = UNIV"
  shows "line_sa (relabel_dict K) Kiter n s a = Some (line_block K Kiter n (LSlope s a))"
proof -
  have r: "relabel_dict K x = Some (nat (field_index K x))" for x
    using relabel_dict_Some [OF assms(1), of x] assms(2) by simp
  have i: "0 \<le> field_index K x" for x
    using field_index_range [OF assms(1), of x] assms(2) by simp
  have "those (map (\<lambda>y. do {
                 u \<leftarrow> relabel_dict K (s * y + a);
                 w \<leftarrow> relabel_dict K y;
                 Some (int u + n * int w)
               }) Kiter)
        = Some (map (\<lambda>y. field_index K (s * y + a) + n * field_index K y) Kiter)"
    by (rule those_map_Some) (simp add: r i)
  then show ?thesis by (simp add: line_sa_def r i)
qed

lemma line_h_eq:
  assumes "distinct K" "set K = UNIV"
  shows "line_h (relabel_dict K) Kiter n a = Some (line_block K Kiter n (LHoriz a))"
proof -
  have r: "relabel_dict K x = Some (nat (field_index K x))" for x
    using relabel_dict_Some [OF assms(1), of x] assms(2) by simp
  have i: "0 \<le> field_index K x" for x
    using field_index_range [OF assms(1), of x] assms(2) by simp
  have "those (map (\<lambda>x. do {
                 u \<leftarrow> relabel_dict K x;
                 w \<leftarrow> relabel_dict K a;
                 Some (int u + n * int w)
               }) Kiter)
        = Some (map (\<lambda>x. field_index K x + n * field_index K a) Kiter)"
    by (rule those_map_Some) (simp add: r i)
  then show ?thesis by (simp add: line_h_def)
qed

lemma desarguesian_blcks_eq:
  assumes "distinct K" "set K = UNIV"
  shows "desarguesian_blcks (relabel_dict K) Kiter n
           = Some (map (line_block K Kiter n) (plane_lines Kiter))"
proof -
  have sa: "those (map (\<lambda>(s, a). line_sa (relabel_dict K) Kiter n s a) (List.product Kiter Kiter))
          = Some (map (\<lambda>(s, a). line_block K Kiter n (LSlope s a)) (List.product Kiter Kiter))"
    by (rule those_map_Some) (auto simp: line_sa_eq [OF assms])
  have h: "those (map (\<lambda>a. line_h (relabel_dict K) Kiter n a) Kiter)
          = Some (map (\<lambda>a. line_block K Kiter n (LHoriz a)) Kiter)"
    by (rule those_map_Some) (simp add: line_h_eq [OF assms])
  show ?thesis
    unfolding desarguesian_blcks_def sa h
    by (simp add: plane_lines_def comp_def case_prod_unfold)
qed

lemma distinct_plane_lines:
  assumes "distinct Kiter"
  shows "distinct (plane_lines Kiter)"
proof -
  have 1: "distinct (map (\<lambda>(s, a). LSlope s a) (List.product Kiter Kiter))"
    using assms by (auto simp: distinct_map distinct_product inj_on_def)
  have 2: "distinct (map LHoriz Kiter)"
    using assms by (simp add: distinct_map inj_on_def)
  show ?thesis unfolding plane_lines_def using 1 2 by auto
qed

lemma length_plane_lines:
  "int (length (plane_lines Kiter)) = (int (length Kiter))\<^sup>2 + int (length Kiter) + 1"
  by (simp add: plane_lines_def power2_eq_square)

lemma lines_meet_once:
  fixes l l' :: "'a::field pline"
  assumes "distinct K" "set K = UNIV" "n = int (length K)" "set Kiter = UNIV" "l \<noteq> l'"
  shows "card (set (line_block K Kiter n l) \<inter> set (line_block K Kiter n l')) = 1"
proof -
  from two_lines_meet [OF assms(5)] obtain p where
    p: "{q. on_line q l} \<inter> {q. on_line q l'} = {p}" by auto
  have "set (line_block K Kiter n l) \<inter> set (line_block K Kiter n l')
          = point_label K n ` ({q. on_line q l} \<inter> {q. on_line q l'})"
    using image_Int [OF point_label_inj [OF assms(1-3)]]
    by (simp add: set_line_block [OF assms(1-4)])
  then show ?thesis by (simp add: p)
qed

lemma length_field_iter:
  assumes "distinct K" "set K = (UNIV :: 'a set)" "distinct Kiter" "set Kiter = (UNIV :: 'a set)"
  shows "length Kiter = length K"
  using distinct_card [OF assms(1)] distinct_card [OF assms(3)] assms(2,4) by simp

lemma line_block_shape:
  fixes l :: "'a::field pline"
  assumes "distinct K" "set K = UNIV" "n = int (length K)" "distinct Kiter" "set Kiter = UNIV"
  shows "int (length (line_block K Kiter n l)) = n + 1"
    and "distinct (line_block K Kiter n l)"
    and "set (line_block K Kiter n l) \<subseteq> {0..n\<^sup>2 + n}"
proof -
  have len: "length Kiter = length K" by (rule length_field_iter [OF assms(1,2,4,5)])
  have inj: "inj (point_label K n)" by (rule point_label_inj [OF assms(1-3)])
  show "int (length (line_block K Kiter n l)) = n + 1"
    using assms(3) len by (cases l) (simp_all add: line_inf_def length_range1)
  show "set (line_block K Kiter n l) \<subseteq> {0..n\<^sup>2 + n}"
    using point_label_range [OF assms(1-3)] by (auto simp: set_line_block [OF assms(1,2,3,5)])
  show "distinct (line_block K Kiter n l)"
  proof (cases l)
    case (LSlope s a)
    have "line_block K Kiter n l = map (point_label K n) (map (\<lambda>y. PAff (s * y + a) y) Kiter @ [PInf s])"
      using LSlope by simp
    moreover have "distinct (map (\<lambda>y. PAff (s * y + a) y) Kiter @ [PInf s])"
      using assms(4) by (auto simp: distinct_map inj_on_def)
    ultimately show ?thesis
      using inj by (simp only: distinct_map) (meson inj_on_subset subset_UNIV)
  next
    case (LHoriz a)
    have "line_block K Kiter n l = map (point_label K n) (map (\<lambda>x. PAff x a) Kiter @ [PVert])"
      using LHoriz by simp
    moreover have "distinct (map (\<lambda>x. PAff x a) Kiter @ [PVert])"
      using assms(4) by (auto simp: distinct_map inj_on_def)
    ultimately show ?thesis
      using inj by (simp only: distinct_map) (meson inj_on_subset subset_UNIV)
  next
    case LInfty
    then show ?thesis
      by (simp add: line_inf_def range1_def range2_def distinct_map inj_on_def)
  qed
qed

lemma Desarguesian_design:
  assumes "FF n = Some K" "distinct K" "set K = UNIV"
  shows "DesarguesianProjectivePlaneDesign FF iter chk n c
           = BlockDesign chk (n\<^sup>2 + n + 1)
               (map (line_block K (iter (relabel_dict K)) n) (plane_lines (iter (relabel_dict K)))) c"
  by (simp add: DesarguesianProjectivePlaneDesign_def assms(1) Let_def
      desarguesian_blcks_eq [OF assms(2,3)])

lemma plane_blocks_meet_once:
  fixes K :: "'a::field list"
  assumes "distinct K" "set K = UNIV" "n = int (length K)" "distinct Kiter" "set Kiter = UNIV"
    and "bs = map (line_block K Kiter n) (plane_lines Kiter)"
    and "i < length bs" "j < length bs" "i \<noteq> j"
  shows "card (set (bs ! i) \<inter> set (bs ! j)) = 1"
proof -
  have "plane_lines Kiter ! i \<noteq> plane_lines Kiter ! j"
    using distinct_plane_lines [OF assms(4)] assms(6-9) by (simp add: nth_eq_iff_index_eq)
  then show ?thesis
    using lines_meet_once [OF assms(1,2,3,5)] assms(6-8) by simp
qed

lemma gf3_UNIV: "(UNIV :: gf3 set) = {G0, G1, G2}"
proof -
  have "x \<in> {G0, G1, G2}" for x by (cases x) simp_all
  then show ?thesis by blast
qed

lemma gf3_iter:
  "distinct (iter_up m)" "set (iter_up m) = dom m"
  "distinct (iter_mixed m)" "set (iter_mixed m) = dom m"
proof -
  have c: "x = G0 \<or> x = G1 \<or> x = G2" for x by (cases x) simp_all
  show "distinct (iter_up m)" "distinct (iter_mixed m)"
    by (simp_all add: iter_up_def iter_mixed_def)
  show "set (iter_up m) = dom m"
  proof (rule set_eqI)
    fix x show "x \<in> set (iter_up m) \<longleftrightarrow> x \<in> dom m"
      using c [of x] by (auto simp: iter_up_def)
  qed
  show "set (iter_mixed m) = dom m"
  proof (rule set_eqI)
    fix x show "x \<in> set (iter_mixed m) \<longleftrightarrow> x \<in> dom m"
      using c [of x] by (auto simp: iter_mixed_def)
  qed
qed

lemma Desarguesian_plane_design:
  fixes K :: "'a::field list"
  assumes FF: "FF n = Some K" and K: "distinct K" "set K = UNIV" and n: "int (length K) = n"
    and iter: "distinct (iter (relabel_dict K))" "set (iter (relabel_dict K)) = dom (relabel_dict K)"
  shows "\<exists>D sa h.
           DesarguesianProjectivePlaneDesign FF iter chk n False = Inr D
         \<and> DesarguesianProjectivePlaneDesign FF iter chk n True
             = (if chk D then Inr D else Inl TypeError)
         \<and> pnts D = range1 (n\<^sup>2 + n + 1)
         \<and> int (length (pnts D)) = n\<^sup>2 + n + 1
         \<and> int (length (blcks D)) = n\<^sup>2 + n + 1
         \<and> blcks D = sa @ h @ [line_inf n]
         \<and> sa = map (\<lambda>(s, a). map (\<lambda>y. field_index K (s * y + a) + n * field_index K y)
                    (iter (relabel_dict K)) @ [n\<^sup>2 + field_index K s])
                  (List.product (iter (relabel_dict K)) (iter (relabel_dict K)))
         \<and> int (length sa) = n\<^sup>2
         \<and> h = map (\<lambda>a. map (\<lambda>x. field_index K x + n * field_index K a)
                    (iter (relabel_dict K)) @ [n\<^sup>2 + n])
                  (iter (relabel_dict K))
         \<and> int (length h) = n
         \<and> (\<forall>b \<in> set (blcks D). int (length b) = n + 1 \<and> distinct b \<and> set b \<subseteq> set (pnts D))
         \<and> (\<forall>i < length (blcks D). \<forall>j < length (blcks D). i \<noteq> j \<longrightarrow>
               card (set (blcks D ! i) \<inter> set (blcks D ! j)) = 1)"
proof -
  define Kiter where "Kiter = iter (relabel_dict K)"
  define bs where "bs = map (line_block K Kiter n) (plane_lines Kiter)"
  define D where "D = \<lparr>pnts = range1 (n\<^sup>2 + n + 1), blcks = bs\<rparr>"
  define sa where "sa = map (\<lambda>(s, a). map (\<lambda>y. field_index K (s * y + a) + n * field_index K y)
                    Kiter @ [n\<^sup>2 + field_index K s]) (List.product Kiter Kiter)"
  define h where "h = map (\<lambda>a. map (\<lambda>x. field_index K x + n * field_index K a) Kiter @ [n\<^sup>2 + n]) Kiter"
  have n': "n = int (length K)" using n by simp
  have Kiter: "distinct Kiter" "set Kiter = UNIV"
    using iter K(2) by (simp_all add: Kiter_def relabel_dict_dom)
  have len: "length Kiter = length K" by (rule length_field_iter [OF K Kiter])
  have run: "DesarguesianProjectivePlaneDesign FF iter chk n c = BlockDesign chk (n\<^sup>2 + n + 1) bs c" for c
    unfolding bs_def Kiter_def by (rule Desarguesian_design [of FF n K, OF FF K])
  have bs: "bs = sa @ h @ [line_inf n]"
    by (simp add: bs_def plane_lines_def sa_def h_def comp_def case_prod_unfold)
  have lbs: "int (length bs) = n\<^sup>2 + n + 1"
    using length_plane_lines [of Kiter] len n' by (simp add: bs_def)
  have pn: "set (pnts D) = {0..n\<^sup>2 + n}"
    by (auto simp: D_def set_range1)
  have shape: "int (length b) = n + 1 \<and> distinct b \<and> set b \<subseteq> set (pnts D)" if "b \<in> set bs" for b
  proof -
    from that obtain l where "b = line_block K Kiter n l" by (auto simp: bs_def)
    then show ?thesis using line_block_shape [OF K n' Kiter, of l] pn by simp
  qed
  have meet: "card (set (bs ! i) \<inter> set (bs ! j)) = 1"
    if "i < length bs" "j < length bs" "i \<noteq> j" for i j
    by (rule plane_blocks_meet_once [OF K n' Kiter bs_def that])
  show ?thesis
  proof (rule exI [of _ D], rule exI [of _ sa], rule exI [of _ h], intro conjI)
    show "DesarguesianProjectivePlaneDesign FF iter chk n False = Inr D"
      by (simp add: run BlockDesign_def D_def)
    show "DesarguesianProjectivePlaneDesign FF iter chk n True
             = (if chk D then Inr D else Inl TypeError)"
      by (simp add: run BlockDesign_def D_def)
    show "pnts D = range1 (n\<^sup>2 + n + 1)" by (simp add: D_def)
    show "int (length (pnts D)) = n\<^sup>2 + n + 1"
      using order_count_nonneg [of n] by (simp add: D_def length_range1)
    show "int (length (blcks D)) = n\<^sup>2 + n + 1" using lbs by (simp add: D_def)
    show "blcks D = sa @ h @ [line_inf n]" using bs by (simp add: D_def)
    show "sa = map (\<lambda>(s, a). map (\<lambda>y. field_index K (s * y + a) + n * field_index K y)
                    (iter (relabel_dict K)) @ [n\<^sup>2 + field_index K s])
                  (List.product (iter (relabel_dict K)) (iter (relabel_dict K)))"
      unfolding sa_def Kiter_def by (rule refl)
    show "int (length sa) = n\<^sup>2" using len n' by (simp add: sa_def power2_eq_square)
    show "h = map (\<lambda>a. map (\<lambda>x. field_index K x + n * field_index K a)
                    (iter (relabel_dict K)) @ [n\<^sup>2 + n])
                  (iter (relabel_dict K))"
      unfolding h_def Kiter_def by (rule refl)
    show "int (length h) = n" using len n' by (simp add: h_def)
    show "\<forall>b \<in> set (blcks D). int (length b) = n + 1 \<and> distinct b \<and> set b \<subseteq> set (pnts D)"
      using shape by (simp add: D_def)
    show "\<forall>i < length (blcks D). \<forall>j < length (blcks D). i \<noteq> j \<longrightarrow>
               card (set (blcks D ! i) \<inter> set (blcks D ! j)) = 1"
      using meet by (simp add: D_def)
  qed
qed

text \<open>
  C1. Let \<open>K\<close> be the enumeration of a finite field with \<open>n\<close> elements that the
  finite-field constructor returns for \<open>n\<close> (there is one exactly when \<open>n\<close> is a prime
  power). Then \<open>DesarguesianProjectivePlaneDesign(n)\<close> builds a design \<open>D\<close> on
  \<open>n\<^sup>2 + n + 1\<close> points with \<open>n\<^sup>2 + n + 1\<close> blocks: the \<open>n\<^sup>2\<close> lines \<open>x = s*y + a\<close>, then
  the \<open>n\<close> horizontal lines \<open>y = a\<close>, then the line at infinity. Every block has
  \<open>n + 1\<close> distinct labels, all of them points of \<open>D\<close>, and two blocks at different
  positions have exactly one label in common. This holds for every order in which
  Python iterates over the dictionary. The design is returned as it is with \<open>check=False\<close>,
  and with \<open>check=True\<close> whenever the checker of the facade accepts it.
\<close>

theorem Desarguesian_plane:
  fixes K :: "'a::field list"
  assumes FF: "FF n = Some K" and K: "distinct K" "set K = UNIV" and n: "int (length K) = n"
    and iter: "distinct (iter (relabel_dict K))" "set (iter (relabel_dict K)) = dom (relabel_dict K)"
  shows "\<exists>D sa h.
           DesarguesianProjectivePlaneDesign FF iter chk n False = Inr D
         \<and> DesarguesianProjectivePlaneDesign FF iter chk n True
             = (if chk D then Inr D else Inl TypeError)
         \<and> pnts D = range1 (n\<^sup>2 + n + 1)
         \<and> int (length (pnts D)) = n\<^sup>2 + n + 1
         \<and> int (length (blcks D)) = n\<^sup>2 + n + 1
         \<and> blcks D = sa @ h @ [line_inf n]
         \<and> sa = map (\<lambda>(s, a). map (\<lambda>y. field_index K (s * y + a) + n * field_index K y)
                    (iter (relabel_dict K)) @ [n\<^sup>2 + field_index K s])
                  (List.product (iter (relabel_dict K)) (iter (relabel_dict K)))
         \<and> int (length sa) = n\<^sup>2
         \<and> h = map (\<lambda>a. map (\<lambda>x. field_index K x + n * field_index K a)
                    (iter (relabel_dict K)) @ [n\<^sup>2 + n])
                  (iter (relabel_dict K))
         \<and> int (length h) = n
         \<and> (\<forall>b \<in> set (blcks D). int (length b) = n + 1 \<and> distinct b \<and> set b \<subseteq> set (pnts D))
         \<and> (\<forall>i < length (blcks D). \<forall>j < length (blcks D). i \<noteq> j \<longrightarrow>
               card (set (blcks D ! i) \<inter> set (blcks D ! j)) = 1)"
  by (rule Desarguesian_plane_design [of FF n K iter chk, OF FF K n iter])

theorem Desarguesian_plane_witness:
  "\<exists>D. DesarguesianProjectivePlaneDesign FiniteField3 iter_mixed lenient_checker 3 True = Inr D
      \<and> length (pnts D) = 13
      \<and> length (blcks D) = 13
      \<and> length (blcks D ! 4) = 4
      \<and> card (set (blcks D ! 0) \<inter> set (blcks D ! 12)) = 1"
proof -
  have "FiniteField3 3 = Some [G0, G1, G2]" "distinct [G0, G1, G2]" "set [G0, G1, G2] = UNIV"
    "int (length [G0, G1, G2]) = 3"
    by (simp_all add: FiniteField3_def gf3_UNIV)
  from Desarguesian_plane [of FiniteField3 3 "[G0, G1, G2]" iter_mixed lenient_checker,
      OF this gf3_iter(3,4)]
  obtain D sa h where D:
    "DesarguesianProjectivePlaneDesign FiniteField3 iter_mixed lenient_checker 3 True
       = (if lenient_checker D then Inr D else Inl TypeError)"
    "int (length (pnts D)) = 3\<^sup>2 + 3 + 1"
    "int (length (blcks D)) = 3\<^sup>2 + 3 + 1"
    "\<forall>b \<in> set (blcks D). int (length b) = 3 + 1 \<and> distinct b \<and> set b \<subseteq> set (pnts D)"
    "\<forall>i < length (blcks D). \<forall>j < length (blcks D). i \<noteq> j \<longrightarrow>
               card (set (blcks D ! i) \<inter> set (blcks D ! j)) = 1"
    by (elim exE conjE) (rule that; assumption)
  have l: "length (blcks D) = 13" "length (pnts D) = 13" using D(2,3) by simp_all
  have "blcks D ! 4 \<in> set (blcks D)" using l by simp
  with D(4) have "int (length (blcks D ! 4)) = 3 + 1" by blast
  then have "length (blcks D ! 4) = 4" by simp
  moreover have "card (set (blcks D ! 0) \<inter> set (blcks D ! 12)) = 1"
    using D(5) [rule_format, of 0 12] l by simp
  moreover have "DesarguesianProjectivePlaneDesign FiniteField3 iter_mixed lenient_checker 3 True = Inr D"
    using D(1) by (simp add: lenient_checker_def)
  ultimately show ?thesis using l by blast
qed

subsection \<open>The round trip through an orthogonal array\<close>

lemma plane3_blcks_eq:
  "map (line_block [G0, G1, G2] (iter_up (relabel_dict [G0, G1, G2])) 3)
     (plane_lines (iter_up (relabel_dict [G0, G1, G2]))) = plane3_blcks"
  by code_simp

lemma plane3_to_OA:
  "projective_plane_to_OA rejecting_is_orthogonal_array \<lparr>pnts = range1 13, blcks = plane3_blcks\<rparr> None False = Inr OA3"
  by code_simp

lemma OA3_to_plane:
  "OA_to_projective_plane strict_checker OA3 False = Inr \<lparr>pnts = range1 13, blcks = roundtrip3_blcks\<rparr>"
  by code_simp


lemma projective_plane_to_OA_ignores_check:
  "projective_plane_to_OA is_orthogonal_array pplane pt c
     = projective_plane_to_OA is_orthogonal_array' pplane pt c'"
  unfolding projective_plane_to_OA_def Let_def by simp

lemma BlockDesign_Inr:
  "BlockDesign chk v bs c = Inr D \<Longrightarrow> D = \<lparr>pnts = range1 v, blcks = bs\<rparr>"
  by (auto simp: BlockDesign_def Let_def split: if_splits)

lemma BlockDesign_unchecked:
  "BlockDesign chk v bs c = Inr D \<Longrightarrow> BlockDesign chk' v bs False = Inr D"
  by (auto simp: BlockDesign_def Let_def split: if_splits)

lemma OA_to_projective_plane_unchecked:
  assumes "OA_to_projective_plane chk OA c = Inr E"
  shows "OA_to_projective_plane chk' OA False = Inr E"
proof (cases OA)
  case Nil
  with assms show ?thesis by (simp add: OA_to_projective_plane_def)
next
  case (Cons l0 rest)
  define n where "n = int (length l0) - 1"
  define bs where "bs = map (\<lambda>l. map (\<lambda>(i, j). int i + (n + 1) * j) (enumerate 0 l)) OA
     @ map (\<lambda>i. range2 (i * n) ((i + 1) * n) @ [n\<^sup>2 + n]) (range1 (n + 1))"
  have run: "OA_to_projective_plane k OA d =
      (if int (length OA) \<noteq> n\<^sup>2 then Inl AssertionError else BlockDesign k (n\<^sup>2 + n + 1) bs d)" for k d
    unfolding OA_to_projective_plane_def Let_def n_def bs_def Cons by simp
  show ?thesis
  proof (cases "int (length OA) \<noteq> n\<^sup>2")
    case True
    with assms run show ?thesis by simp
  next
    case False
    with assms run have "BlockDesign chk (n\<^sup>2 + n + 1) bs c = Inr E" by simp
    then have "BlockDesign chk' (n\<^sup>2 + n + 1) bs False = Inr E" by (rule BlockDesign_unchecked)
    with False run show ?thesis by simp
  qed
qed

lemma Desarguesian_linear:
  fixes K :: "'a::field list"
  assumes FF: "FF n = Some K" and K: "distinct K" "set K = UNIV" and n: "int (length K) = n"
    and iter: "distinct (iter (relabel_dict K))" "set (iter (relabel_dict K)) = dom (relabel_dict K)"
    and run: "DesarguesianProjectivePlaneDesign FF iter chk n c = Inr D"
  shows "\<forall>b \<in> set (blcks D). set b \<subseteq> set (pnts D)"
    and "\<forall>b \<in> set (blcks D). \<forall>b' \<in> set (blcks D). set b \<noteq> set b' \<longrightarrow> card (set b \<inter> set b') = 1"
proof -
  define Kiter where "Kiter = iter (relabel_dict K)"
  define bs where "bs = map (line_block K Kiter n) (plane_lines Kiter)"
  have n': "n = int (length K)" using n by simp
  have Kiter: "distinct Kiter" "set Kiter = UNIV"
    using iter K(2) by (simp_all add: Kiter_def relabel_dict_dom)
  have "BlockDesign chk (n\<^sup>2 + n + 1) bs c = Inr D"
    using run Desarguesian_design [of FF n K iter chk c, OF FF K] by (simp add: bs_def Kiter_def)
  then have D: "D = \<lparr>pnts = range1 (n\<^sup>2 + n + 1), blcks = bs\<rparr>" by (rule BlockDesign_Inr)
  have pn: "set (pnts D) = {0..n\<^sup>2 + n}" by (auto simp: D set_range1)
  show "\<forall>b \<in> set (blcks D). set b \<subseteq> set (pnts D)"
  proof
    fix b assume "b \<in> set (blcks D)"
    then obtain l where "b = line_block K Kiter n l" by (auto simp: D bs_def)
    then show "set b \<subseteq> set (pnts D)" using line_block_shape(3) [OF K n' Kiter, of l] pn by simp
  qed
  show "\<forall>b \<in> set (blcks D). \<forall>b' \<in> set (blcks D). set b \<noteq> set b' \<longrightarrow> card (set b \<inter> set b') = 1"
  proof (intro ballI impI)
    fix b b' assume b: "b \<in> set (blcks D)" "b' \<in> set (blcks D)" "set b \<noteq> set b'"
    from b(1,2) obtain i j where ij: "i < length bs" "bs ! i = b" "j < length bs" "bs ! j = b'"
      by (auto simp: D in_set_conv_nth)
    with b(3) have "i \<noteq> j" by auto
    from plane_blocks_meet_once [OF K n' Kiter bs_def ij(1,3) this] ij(2,4)
    show "card (set b \<inter> set b') = 1" by simp
  qed
qed

lemma not_isomorphic_by_intersection:
  assumes sub: "\<forall>c \<in> set (blcks D). set c \<subseteq> set (pnts D)"
    and lin: "\<forall>c \<in> set (blcks D). \<forall>c' \<in> set (blcks D). set c \<noteq> set c' \<longrightarrow> card (set c \<inter> set c') = 1"
    and E: "b \<in> set (blcks E)" "b' \<in> set (blcks E)" "set b \<noteq> set b'" "card (set b \<inter> set b') \<noteq> 1"
  shows "\<not> design_isomorphic D E"
proof
  assume "design_isomorphic D E"
  then obtain f where f: "bij_betw f (set (pnts D)) (set (pnts E))"
    and im: "(\<lambda>b. f ` set b) ` set (blcks D) = set ` set (blcks E)"
    unfolding design_isomorphic_def by blast
  have "set b \<in> set ` set (blcks E)" using E(1) by (rule imageI)
  then have "set b \<in> (\<lambda>b. f ` set b) ` set (blcks D)" unfolding im [symmetric] .
  then obtain c where c: "c \<in> set (blcks D)" "f ` set c = set b" by blast
  have "set b' \<in> set ` set (blcks E)" using E(2) by (rule imageI)
  then have "set b' \<in> (\<lambda>b. f ` set b) ` set (blcks D)" unfolding im [symmetric] .
  then obtain c' where c': "c' \<in> set (blcks D)" "f ` set c' = set b'" by blast
  have ne: "set c \<noteq> set c'"
  proof
    assume "set c = set c'"
    then have "f ` set c = f ` set c'" by simp
    with c(2) c'(2) E(3) show False by simp
  qed
  have inj: "inj_on f (set (pnts D))" using f by (rule bij_betw_imp_inj_on)
  have cs: "set c \<subseteq> set (pnts D)" "set c' \<subseteq> set (pnts D)"
    using sub c(1) c'(1) by blast+
  have "f ` (set c \<inter> set c') = f ` set c \<inter> f ` set c'"
    by (rule inj_on_image_Int [OF inj cs])
  moreover have "inj_on f (set c \<inter> set c')"
    by (rule inj_on_subset [OF inj]) (use cs in blast)
  ultimately have "card (set b \<inter> set b') = card (set c \<inter> set c')"
    using card_image [of f "set c \<inter> set c'"] c(2) c'(2) by simp
  moreover have "card (set c \<inter> set c') = 1" using lin c(1) c'(1) ne by blast
  ultimately show False using E(4) by simp
qed

lemma shared_points:
  "card (set [0, 1, 2, 3 :: int] \<inter> set [0, 1, 2, 12]) \<noteq> 1"
  "set [0, 1, 2, 3 :: int] \<noteq> set [0, 1, 2, 12]"
proof -
  have "set [0, 1, 2, 3 :: int] \<inter> set [0, 1, 2, 12] = {0, 1, 2}" by auto
  then show "card (set [0, 1, 2, 3 :: int] \<inter> set [0, 1, 2, 12]) \<noteq> 1" by simp
  show "set [0, 1, 2, 3 :: int] \<noteq> set [0, 1, 2, 12]"
  proof
    assume eq: "set [0, 1, 2, 3 :: int] = set [0, 1, 2, 12]"
    have "(3::int) \<in> set [0, 1, 2, 3]" by simp
    then have "(3::int) \<in> set [0, 1, 2, 12]" unfolding eq .
    then show False by simp
  qed
qed

text \<open>
  The array printed in the documentation of \<open>projective_plane_to_OA\<close> for the plane of
  order 3 gives the same two blocks.
\<close>

lemma OA_to_projective_plane_documented_OA3:
  "\<exists>E. OA_to_projective_plane strict_checker
         [[0, 0, 0, 0], [0, 1, 2, 1], [0, 2, 1, 2], [1, 0, 2, 2], [1, 1, 1, 0],
          [1, 2, 0, 1], [2, 0, 1, 1], [2, 1, 0, 2], [2, 2, 2, 0]] False = Inr E
      \<and> blcks E ! 0 = [0, 1, 2, 3] \<and> blcks E ! 9 = [0, 1, 2, 12]"
  by (simp add: OA_to_projective_plane_def BlockDesign_def Let_def range1_def range2_def
      upto_rec1)

text \<open>
  C2, as the code has it. For the plane \<open>D\<close> of order 3, the design
  \<open>OA_to_projective_plane(projective_plane_to_OA(D))\<close> is not isomorphic to \<open>D\<close>, whatever
  the validations answer: its first block \<open>[0, 1, 2, 3]\<close> (the row \<open>[0, 0, 0, 0]\<close>, labelled
  \<open>i + (n+1)*j\<close>) and its block \<open>[0, 1, 2, 12]\<close> (the line \<open>range(0, n)\<close> with \<open>n\<^sup>2 + n\<close>)
  share three points, and two blocks of \<open>D\<close> share one.
\<close>

theorem roundtrip_order3_not_isomorphic:
  assumes "DesarguesianProjectivePlaneDesign FiniteField3 iter_up chk 3 c = Inr D"
    and "projective_plane_to_OA is_orthogonal_array D None c' = Inr OA"
    and "OA_to_projective_plane chk' OA c'' = Inr E"
  shows "OA = OA3 \<and> blcks E ! 0 = [0, 1, 2, 3] \<and> blcks E ! 9 = [0, 1, 2, 12]
       \<and> \<not> design_isomorphic D E"
proof -
  have F: "FiniteField3 3 = Some [G0, G1, G2]" "distinct [G0, G1, G2]" "set [G0, G1, G2] = UNIV"
    "int (length [G0, G1, G2]) = 3"
    by (simp_all add: FiniteField3_def gf3_UNIV)
  have "BlockDesign chk 13 plane3_blcks c = Inr D"
    using assms(1) Desarguesian_design [of FiniteField3 3 "[G0, G1, G2]" iter_up chk c, OF F(1-3)]
    by (simp add: plane3_blcks_eq)
  then have D: "D = \<lparr>pnts = range1 13, blcks = plane3_blcks\<rparr>" by (rule BlockDesign_Inr)
  have OA: "OA = OA3"
    using assms(2) plane3_to_OA
      projective_plane_to_OA_ignores_check [of is_orthogonal_array D None c' rejecting_is_orthogonal_array False]
    by (simp add: D)
  have E: "E = \<lparr>pnts = range1 13, blcks = roundtrip3_blcks\<rparr>"
    using OA_to_projective_plane_unchecked [OF assms(3), of strict_checker] OA3_to_plane
    by (simp add: OA)
  have b: "[0, 1, 2, 3] \<in> set (blcks E)" "[0, 1, 2, 12] \<in> set (blcks E)"
    by (simp_all add: E roundtrip3_blcks_def)
  have c: "card (set [0, 1, 2, 3 :: int] \<inter> set [0, 1, 2, 12]) \<noteq> 1"
    by (rule shared_points(1))
  have d: "set [0, 1, 2, 3 :: int] \<noteq> set [0, 1, 2, 12]"
    by (rule shared_points(2))
  have "\<not> design_isomorphic D E"
    by (rule not_isomorphic_by_intersection
        [OF Desarguesian_linear [of FiniteField3 3 "[G0, G1, G2]" iter_up chk c D,
            OF F gf3_iter(1,2) assms(1)] b d c])
  moreover have "blcks E ! 0 = [0, 1, 2, 3]" "blcks E ! 9 = [0, 1, 2, 12]"
    by (simp_all add: E roundtrip3_blcks_def)
  ultimately show ?thesis using OA by simp
qed

theorem roundtrip_order3_not_isomorphic_witness:
  "\<exists>D OA E. DesarguesianProjectivePlaneDesign FiniteField3 iter_up lenient_checker 3 True = Inr D
      \<and> projective_plane_to_OA rejecting_is_orthogonal_array D None True = Inr OA
      \<and> OA_to_projective_plane lenient_checker OA True = Inr E
      \<and> length (pnts E) = length (pnts D)
      \<and> length (blcks E) = length (blcks D)
      \<and> blcks E ! 0 = [0, 1, 2, 3] \<and> blcks E ! 9 = [0, 1, 2, 12]
      \<and> \<not> design_isomorphic D E"
proof -
  define D where "D = \<lparr>pnts = range1 13, blcks = plane3_blcks\<rparr>"
  define E where "E = \<lparr>pnts = range1 13, blcks = roundtrip3_blcks\<rparr>"
  have F: "FiniteField3 3 = Some [G0, G1, G2]" "distinct [G0, G1, G2]" "set [G0, G1, G2] = UNIV"
    by (simp_all add: FiniteField3_def gf3_UNIV)
  have 1: "DesarguesianProjectivePlaneDesign FiniteField3 iter_up lenient_checker 3 True = Inr D"
    using Desarguesian_design [of FiniteField3 3 "[G0, G1, G2]" iter_up lenient_checker True, OF F]
    by (simp add: plane3_blcks_eq BlockDesign_def lenient_checker_def D_def)
  have 2: "projective_plane_to_OA rejecting_is_orthogonal_array D None True = Inr OA3"
    using plane3_to_OA
      projective_plane_to_OA_ignores_check [of rejecting_is_orthogonal_array D None True rejecting_is_orthogonal_array False]
    by (simp add: D_def)
  have 3: "OA_to_projective_plane lenient_checker OA3 True = Inr E"
    by (simp add: E_def OA_to_projective_plane_def OA3_def BlockDesign_def lenient_checker_def
        Let_def roundtrip3_blcks_def range1_def range2_def upto_rec1)
  have 4: "length (pnts E) = length (pnts D)" "length (blcks E) = length (blcks D)"
    by (simp_all add: D_def E_def plane3_blcks_def roundtrip3_blcks_def)
  have 5: "blcks E ! 0 = [0, 1, 2, 3] \<and> blcks E ! 9 = [0, 1, 2, 12] \<and> \<not> design_isomorphic D E"
    using roundtrip_order3_not_isomorphic [OF 1 2 3] by simp
  show ?thesis
    by (rule exI [of _ D], rule exI [of _ OA3], rule exI [of _ E]) (intro conjI 1 2 3 4 5 [THEN conjunct1] 5 [THEN conjunct2, THEN conjunct1] 5 [THEN conjunct2, THEN conjunct2])
qed

subsection \<open>The input of the conversion is not modified\<close>

lemma copy_remove: "(h @ [x])[length h := y] = h @ [y]"
  by simp

lemma pencil_loop_store_frame:
  "pencil_loop_store n pt refs h L OA = (h', res) \<Longrightarrow> length h \<le> length h' \<and> take (length h) h' = h"
proof (induction refs arbitrary: h L OA)
  case Nil
  then show ?case by simp
next
  case (Cons blk rest)
  show ?case
  proof (cases "int (length (h ! blk)) \<noteq> n + 1")
    case True
    with Cons.prems show ?thesis by simp
  next
    case len: False
    show ?thesis
    proof (cases "pt \<in> set (h ! blk)")
      case True
      have "pencil_loop_store n pt rest (h @ [remove1 pt (h ! blk)]) (L @ [length h]) OA = (h', res)"
        using Cons.prems len True by (simp add: Let_def)
      from Cons.IH [OF this]
      have a: "length (h @ [remove1 pt (h ! blk)]) \<le> length h'"
        and b: "take (length (h @ [remove1 pt (h ! blk)])) h' = h @ [remove1 pt (h ! blk)]" by simp_all
      have "take (length h) (take (length (h @ [remove1 pt (h ! blk)])) h') = h"
        unfolding b by simp
      then have "take (length h) h' = h" by (simp add: min_def)
      with a show ?thesis by simp
    next
      case False
      with Cons.prems len Cons.IH [of h L "OA @ [blk]"] show ?thesis by simp
    qed
  qed
qed

lemma pencil_loop_store_refines:
  assumes "\<forall>a \<in> set refs. a < length h" "\<forall>a \<in> set L. a < length h" "\<forall>a \<in> set OA. a < length h"
    and "pencil_loop_store n pt refs h L OA = (h', res)"
  shows "pencil_loop n pt (map (\<lambda>a. h ! a) refs) (map (\<lambda>a. h ! a) L, map (\<lambda>a. h ! a) OA)
           = (case res of Inl e \<Rightarrow> Inl e
              | Inr (L', OA') \<Rightarrow> Inr (map (\<lambda>a. h' ! a) L', map (\<lambda>a. h' ! a) OA'))"
  using assms
proof (induction refs arbitrary: h L OA)
  case Nil
  then show ?case by auto
next
  case (Cons blk rest)
  show ?case
  proof (cases "int (length (h ! blk)) \<noteq> n + 1")
    case True
    with Cons.prems(4) show ?thesis by auto
  next
    case len: False
    show ?thesis
    proof (cases "pt \<in> set (h ! blk)")
      case True
      define h2 where "h2 = h @ [remove1 pt (h ! blk)]"
      have run: "pencil_loop_store n pt rest h2 (L @ [length h]) OA = (h', res)"
        using Cons.prems(4) len True by (simp add: Let_def h2_def)
      have same: "a < length h \<Longrightarrow> h2 ! a = h ! a" for a by (simp add: h2_def nth_append)
      have v: "\<forall>a \<in> set rest. a < length h2" "\<forall>a \<in> set (L @ [length h]). a < length h2"
        "\<forall>a \<in> set OA. a < length h2"
        using Cons.prems(1-3) by (auto simp: h2_def)
      have m: "map (\<lambda>a. h2 ! a) rest = map (\<lambda>a. h ! a) rest"
        "map (\<lambda>a. h2 ! a) OA = map (\<lambda>a. h ! a) OA"
        "map (\<lambda>a. h2 ! a) L = map (\<lambda>a. h ! a) L"
        "h2 ! length h = remove1 pt (h ! blk)"
        using Cons.prems(1-3) same by (auto simp: h2_def)
      from Cons.IH [OF v run] show ?thesis
        using len True by (simp add: m)
    next
      case False
      have run: "pencil_loop_store n pt rest h L (OA @ [blk]) = (h', res)"
        using Cons.prems(4) len False by simp
      have v: "\<forall>a \<in> set rest. a < length h" "\<forall>a \<in> set (OA @ [blk]). a < length h"
        using Cons.prems(1,3) by auto
      from Cons.IH [OF v(1) Cons.prems(2) v(2) run] show ?thesis
        using len False by simp
    qed
  qed
qed

lemma projective_plane_to_OA_store_Cons:
  assumes "n = int (length (h ! r0)) - 1" "p = (case pt of None \<Rightarrow> n\<^sup>2 + n | Some q \<Rightarrow> q)"
    and "pencil_loop_store n p (r0 # rest) h [] [] = (h1, r1)"
  shows "projective_plane_to_OA_store is_orthogonal_array (r0 # rest) pt check h =
     (if int (length (r0 # rest)) \<noteq> n\<^sup>2 + n + 1 then (h, Inl AssertionError)
      else case r1 of Inl e \<Rightarrow> (h1, Inl e)
        | Inr (L, OA) \<Rightarrow>
            if int (length L) \<noteq> n + 1 then (h1, Inl AssertionError)
            else case oa_rows (pencil_relabel (map (\<lambda>a. h1 ! a) L)) (map (\<lambda>a. h1 ! a) OA) of
                   None \<Rightarrow> (h1, Inl KeyError) | Some OA \<Rightarrow> (h1, Inr OA))"
proof -
  have "projective_plane_to_OA_store is_orthogonal_array (r0 # rest) pt check h =
     (if int (length (r0 # rest)) \<noteq> n\<^sup>2 + n + 1 then (h, Inl AssertionError)
      else case pencil_loop_store n p (r0 # rest) h [] [] of
          (h, Inl e) \<Rightarrow> (h, Inl e)
        | (h, Inr (L, OA)) \<Rightarrow>
            if int (length L) \<noteq> n + 1 then (h, Inl AssertionError)
            else case oa_rows (pencil_relabel (map (\<lambda>a. h ! a) L)) (map (\<lambda>a. h ! a) OA) of
                   None \<Rightarrow> (h, Inl KeyError) | Some OA \<Rightarrow> (h, Inr OA))"
    unfolding projective_plane_to_OA_store_def Let_def assms(1,2) list.case by (rule refl)
  then show ?thesis unfolding assms(3) by (simp split: sum.splits)
qed

lemma projective_plane_to_OA_Cons:
  assumes "n = int (length b0) - 1" "p = (case pt of None \<Rightarrow> n\<^sup>2 + n | Some q \<Rightarrow> q)"
  shows "projective_plane_to_OA is_orthogonal_array \<lparr>pnts = P, blcks = b0 # bs\<rparr> pt check =
     (if int (length (b0 # bs)) \<noteq> n\<^sup>2 + n + 1 then Inl AssertionError
      else case pencil_loop n p (b0 # bs) ([], []) of Inl e \<Rightarrow> Inl e
        | Inr (L, OA) \<Rightarrow>
            if int (length L) \<noteq> n + 1 then Inl AssertionError
            else case oa_rows (pencil_relabel L) OA of
                   None \<Rightarrow> Inl KeyError | Some OA \<Rightarrow> Inr OA)"
  unfolding projective_plane_to_OA_def Let_def assms
  by (simp split: sum.splits prod.splits option.splits)

lemma projective_plane_to_OA_store_frame:
  assumes "projective_plane_to_OA_store is_orthogonal_array refs pt check h = (h', res)"
  shows "length h \<le> length h' \<and> take (length h) h' = h"
proof (cases refs)
  case Nil
  with assms show ?thesis by (simp add: projective_plane_to_OA_store_def)
next
  case (Cons r0 rest)
  define n where "n = int (length (h ! r0)) - 1"
  define p where "p = (case pt of None \<Rightarrow> n\<^sup>2 + n | Some q \<Rightarrow> q)"
  obtain h1 r1 where loop: "pencil_loop_store n p (r0 # rest) h [] [] = (h1, r1)"
    by (cases "pencil_loop_store n p (r0 # rest) h [] []")
  have f: "length h \<le> length h1 \<and> take (length h) h1 = h"
    by (rule pencil_loop_store_frame [OF loop])
  have "h' = h \<or> h' = h1"
    using assms unfolding Cons projective_plane_to_OA_store_Cons [OF n_def p_def loop]
    by (auto split: if_splits sum.splits prod.splits option.splits)
  with f show ?thesis by auto
qed

lemma projective_plane_to_OA_store_refines:
  assumes "\<forall>a \<in> set refs. a < length h"
  shows "snd (projective_plane_to_OA_store is_orthogonal_array refs pt check h)
           = projective_plane_to_OA is_orthogonal_array \<lparr>pnts = P, blcks = map (\<lambda>a. h ! a) refs\<rparr> pt check"
proof (cases refs)
  case Nil
  then show ?thesis by (simp add: projective_plane_to_OA_store_def projective_plane_to_OA_def)
next
  case (Cons r0 rest)
  define n where "n = int (length (h ! r0)) - 1"
  define p where "p = (case pt of None \<Rightarrow> n\<^sup>2 + n | Some q \<Rightarrow> q)"
  obtain h1 r1 where loop: "pencil_loop_store n p (r0 # rest) h [] [] = (h1, r1)"
    by (cases "pencil_loop_store n p (r0 # rest) h [] []")
  have v: "\<forall>a \<in> set (r0 # rest). a < length h" using assms Cons by simp
  have pure: "pencil_loop n p (h ! r0 # map (\<lambda>a. h ! a) rest) ([], [])
           = (case r1 of Inl e \<Rightarrow> Inl e
              | Inr (L', OA') \<Rightarrow> Inr (map (\<lambda>a. h1 ! a) L', map (\<lambda>a. h1 ! a) OA'))"
    using pencil_loop_store_refines [OF v _ _ loop] by simp
  have m: "map (\<lambda>a. h ! a) refs = h ! r0 # map (\<lambda>a. h ! a) rest" using Cons by simp
  show ?thesis
    unfolding m projective_plane_to_OA_Cons [OF n_def p_def] pure
    unfolding Cons projective_plane_to_OA_store_Cons [OF n_def p_def loop]
    by (auto split: sum.splits prod.splits option.splits)
qed

lemma Desarguesian_unchecked:
  "DesarguesianProjectivePlaneDesign FF iter chk n c = Inr D \<Longrightarrow>
     DesarguesianProjectivePlaneDesign FF iter chk' n False = Inr D"
  by (auto simp: DesarguesianProjectivePlaneDesign_def Let_def split: option.splits
      intro: BlockDesign_unchecked)

text \<open>
  C9. \<open>projective_plane_to_OA\<close> leaves its input as it found it: every list object that
  exists before the call, so every block of the plane, has the same content after it
  (\<open>pt\<close> is removed from copies only), whether the call returns or raises. Its result is
  the one the store-free function computes from the blocks, and a second call on the
  store the first one leaves gives the same result. The validation of \<open>BlockDesign\<close>, and so
  of the constructors that take a \<open>check\<close> flag, does not change the design it accepts:
  what is returned with the validation on is returned with it off.
\<close>

theorem projective_plane_to_OA_keeps_input:
  assumes "\<forall>a \<in> set refs. a < length h"
  shows "\<exists>h' res.
           projective_plane_to_OA_store is_orthogonal_array refs pt check h = (h', res)
         \<and> take (length h) h' = h
         \<and> map (\<lambda>a. h' ! a) refs = map (\<lambda>a. h ! a) refs
         \<and> res = projective_plane_to_OA is_orthogonal_array
                    \<lparr>pnts = P, blcks = map (\<lambda>a. h ! a) refs\<rparr> pt check
         \<and> snd (projective_plane_to_OA_store is_orthogonal_array refs pt check h') = res
         \<and> (\<forall>chk v bs D. BlockDesign chk v bs True = Inr D \<longrightarrow> BlockDesign chk v bs False = Inr D)
         \<and> (\<forall>FF iter chk n D. DesarguesianProjectivePlaneDesign (FF :: int \<Rightarrow> 'a::field list option) iter chk n True = Inr D
               \<longrightarrow> DesarguesianProjectivePlaneDesign FF iter chk n False = Inr D)
         \<and> (\<forall>chk OA D. OA_to_projective_plane chk OA True = Inr D
               \<longrightarrow> OA_to_projective_plane chk OA False = Inr D)"
proof -
  obtain h' res where run: "projective_plane_to_OA_store is_orthogonal_array refs pt check h = (h', res)"
    by (cases "projective_plane_to_OA_store is_orthogonal_array refs pt check h")
  have f: "length h \<le> length h'" "take (length h) h' = h"
    using projective_plane_to_OA_store_frame [OF run] by simp_all
  have same: "h' ! a = h ! a" if "a < length h" for a
  proof -
    have "take (length h) h' ! a = h' ! a" using that by simp
    then show ?thesis using f(2) by simp
  qed
  have m: "map (\<lambda>a. h' ! a) refs = map (\<lambda>a. h ! a) refs"
    using assms same by simp
  have v: "\<forall>a \<in> set refs. a < length h'" using assms f(1) by auto
  have r: "res = projective_plane_to_OA is_orthogonal_array
                    \<lparr>pnts = P, blcks = map (\<lambda>a. h ! a) refs\<rparr> pt check"
    using projective_plane_to_OA_store_refines [OF assms, of is_orthogonal_array pt check P] run by simp
  have again: "snd (projective_plane_to_OA_store is_orthogonal_array refs pt check h') = res"
    using projective_plane_to_OA_store_refines [OF v, of is_orthogonal_array pt check P] r m by simp
  have b: "\<forall>chk v bs D. BlockDesign chk v bs True = Inr D \<longrightarrow> BlockDesign chk v bs False = Inr D"
    using BlockDesign_unchecked by blast
  have d: "\<forall>FF iter chk n D. DesarguesianProjectivePlaneDesign (FF :: int \<Rightarrow> 'a::field list option) iter chk n True = Inr D
               \<longrightarrow> DesarguesianProjectivePlaneDesign FF iter chk n False = Inr D"
    using Desarguesian_unchecked by blast
  have e: "\<forall>chk OA D. OA_to_projective_plane chk OA True = Inr D
               \<longrightarrow> OA_to_projective_plane chk OA False = Inr D"
    using OA_to_projective_plane_unchecked by blast
  show ?thesis
    by (rule exI [of _ h'], rule exI [of _ res]) (intro conjI run f(2) m r again b d e)
qed

lemma fano_to_OA:
  "projective_plane_to_OA rejecting_is_orthogonal_array \<lparr>pnts = range1 7, blcks = fano_blcks\<rparr> None False
     = Inr [[0, 0, 0], [0, 1, 1], [1, 0, 1], [1, 1, 0]]"
  by code_simp

theorem projective_plane_to_OA_keeps_input_witness:
  "\<exists>h' res.
      projective_plane_to_OA_store rejecting_is_orthogonal_array [0, 1, 2, 3, 4, 5, 6] None True fano_blcks
         = (h', res)
    \<and> take 7 h' = fano_blcks
    \<and> res = Inr [[0, 0, 0], [0, 1, 1], [1, 0, 1], [1, 1, 0]]"
proof -
  have v: "\<forall>a \<in> set [0, 1, 2, 3, 4, 5, 6 :: nat]. a < length fano_blcks"
    by (simp add: fano_blcks_def)
  have m: "map (\<lambda>a. fano_blcks ! a) [0, 1, 2, 3, 4, 5, 6] = fano_blcks"
    by (simp add: fano_blcks_def)
  have l: "length fano_blcks = 7" by (simp add: fano_blcks_def)
  from projective_plane_to_OA_keeps_input [OF v, of rejecting_is_orthogonal_array None True "range1 7"]
  obtain h' res where run:
    "projective_plane_to_OA_store rejecting_is_orthogonal_array [0, 1, 2, 3, 4, 5, 6] None True fano_blcks
         = (h', res)"
    and fr: "take (length fano_blcks) h' = fano_blcks"
    and res: "res = projective_plane_to_OA rejecting_is_orthogonal_array
         \<lparr>pnts = range1 7, blcks = map (\<lambda>a. fano_blcks ! a) [0, 1, 2, 3, 4, 5, 6]\<rparr> None True"
    by (elim exE conjE) (rule that; assumption)
  have "projective_plane_to_OA rejecting_is_orthogonal_array
         \<lparr>pnts = range1 7, blcks = fano_blcks\<rparr> None True = Inr [[0, 0, 0], [0, 1, 1], [1, 0, 1], [1, 1, 0]]"
    using fano_to_OA
      projective_plane_to_OA_ignores_check [of rejecting_is_orthogonal_array
        "\<lparr>pnts = range1 7, blcks = fano_blcks\<rparr>" None True rejecting_is_orthogonal_array False]
    by simp
  then have r: "res = Inr [[0, 0, 0], [0, 1, 1], [1, 0, 1], [1, 1, 0]]"
    using res unfolding m by simp
  have t: "take 7 h' = fano_blcks" using fr unfolding l .
  show ?thesis
    by (rule exI [of _ h'], rule exI [of _ res]) (intro conjI run t r)
qed

subsection \<open>The plane that \<open>projective_plane\<close> returns\<close>

text \<open>
  C4. \<open>projective_plane(n)\<close> raises \<open>EmptySetError\<close> exactly when \<open>n \<le> 1\<close>, or \<open>n = 10\<close>,
  or \<open>n mod 4\<close> is 1 or 2 and \<open>n\<close> is not a sum of two integer squares; it raises
  \<open>NotImplementedError\<close> exactly when none of those hold and \<open>n\<close> is not a prime power;
  otherwise it calls the Desarguesian builder for \<open>n\<close>, and when the finite-field
  constructor returns the enumeration \<open>K\<close> of a field with \<open>n\<close> elements, the result is the
  plane of order \<open>n\<close> the builder makes: a design \<open>D\<close> on \<open>n\<^sup>2 + n + 1\<close> points with
  \<open>n\<^sup>2 + n + 1\<close> blocks of \<open>n + 1\<close> distinct points, two of which share exactly one point,
  returned when the checker of the facade accepts it (the builder is called with its
  validation on). Orders 6, 10 and 14 raise \<open>EmptySetError\<close>, order 12 raises
  \<open>NotImplementedError\<close>, and orders 2, 3, 4 and 5 return that plane.
\<close>

theorem projective_plane_cases:
  fixes n :: int and K :: "'a::field list"
  defines "nonexistent \<equiv> n \<le> 1 \<or> n = 10 \<or> (n mod 4 \<in> {1, 2} \<and> \<not> (\<exists>a b::int. n = a\<^sup>2 + b\<^sup>2))"
  defines "prime_power \<equiv> \<exists>p k. is_prime p \<and> 1 \<le> k \<and> n = int (p ^ k)"
  shows "(projective_plane FF iter chk n = Inl EmptySetError \<longleftrightarrow> nonexistent)
       \<and> (projective_plane FF iter chk n = Inl NotImplementedError \<longleftrightarrow> \<not> nonexistent \<and> \<not> prime_power)
       \<and> (\<not> nonexistent \<and> prime_power \<longrightarrow>
            projective_plane FF iter chk n = DesarguesianProjectivePlaneDesign FF iter chk n True)
       \<and> (n \<in> {6, 10, 14} \<longrightarrow> projective_plane FF iter chk n = Inl EmptySetError)
       \<and> (n = 12 \<longrightarrow> projective_plane FF iter chk n = Inl NotImplementedError)
       \<and> (n \<in> {2, 3, 4, 5} \<longrightarrow>
            projective_plane FF iter chk n = DesarguesianProjectivePlaneDesign FF iter chk n True)
       \<and> ((\<not> nonexistent \<and> prime_power \<or> n \<in> {2, 3, 4, 5})
            \<and> FF n = Some K \<and> distinct K \<and> set K = UNIV \<and> int (length K) = n
            \<and> distinct (iter (relabel_dict K)) \<and> set (iter (relabel_dict K)) = dom (relabel_dict K)
          \<longrightarrow> (\<exists>D. projective_plane FF iter chk n = (if chk D then Inr D else Inl TypeError)
                 \<and> DesarguesianProjectivePlaneDesign FF iter chk n False = Inr D
                 \<and> pnts D = range1 (n\<^sup>2 + n + 1)
                 \<and> int (length (pnts D)) = n\<^sup>2 + n + 1
                 \<and> int (length (blcks D)) = n\<^sup>2 + n + 1
                 \<and> (\<forall>b \<in> set (blcks D).
                       int (length b) = n + 1 \<and> distinct b \<and> set b \<subseteq> set (pnts D))
                 \<and> (\<forall>i < length (blcks D). \<forall>j < length (blcks D). i \<noteq> j \<longrightarrow>
                       card (set (blcks D ! i) \<inter> set (blcks D ! j)) = 1)))"
proof -
  have D1: "DesarguesianProjectivePlaneDesign FF iter chk n True \<noteq> Inl EmptySetError"
    using Desarguesian_errors [of FF iter chk n True EmptySetError] by auto
  have D2: "DesarguesianProjectivePlaneDesign FF iter chk n True \<noteq> Inl NotImplementedError"
    using Desarguesian_errors [of FF iter chk n True NotImplementedError] by auto
  have ne: "nonexistent \<longleftrightarrow> n \<le> 1 \<or> n = 10 \<or> (n mod 4 \<in> {1, 2} \<and> \<not> sum_of_two_squares n)"
    unfolding nonexistent_def sum_of_two_squares_iff by simp
  have pp: "prime_power \<longleftrightarrow> is_prime_power n"
    unfolding prime_power_def is_prime_power_iff by simp
  have a: "projective_plane FF iter chk n = Inl EmptySetError \<longleftrightarrow> nonexistent"
    unfolding ne using D1 by (simp add: projective_plane_def)
  have b: "projective_plane FF iter chk n = Inl NotImplementedError \<longleftrightarrow> \<not> nonexistent \<and> \<not> prime_power"
    unfolding ne pp using D2 by (simp add: projective_plane_def)
  have c: "\<not> nonexistent \<and> prime_power \<longrightarrow>
            projective_plane FF iter chk n = DesarguesianProjectivePlaneDesign FF iter chk n True"
    unfolding ne pp by (auto simp: projective_plane_def)
  have d: "n \<in> {6, 10, 14} \<longrightarrow> projective_plane FF iter chk n = Inl EmptySetError"
    using not_two_squares_6_14 by (auto simp: projective_plane_def)
  have e: "n = 12 \<longrightarrow> projective_plane FF iter chk n = Inl NotImplementedError"
    using not_prime_power_12 by (auto simp: projective_plane_def)
  have f: "n \<in> {2, 3, 4, 5} \<longrightarrow>
            projective_plane FF iter chk n = DesarguesianProjectivePlaneDesign FF iter chk n True"
    using two_squares_2_5 prime_power_2_3_4_5 by (auto simp: projective_plane_def)
  have g: "\<exists>D. projective_plane FF iter chk n = (if chk D then Inr D else Inl TypeError)
                 \<and> DesarguesianProjectivePlaneDesign FF iter chk n False = Inr D
                 \<and> pnts D = range1 (n\<^sup>2 + n + 1)
                 \<and> int (length (pnts D)) = n\<^sup>2 + n + 1
                 \<and> int (length (blcks D)) = n\<^sup>2 + n + 1
                 \<and> (\<forall>b \<in> set (blcks D).
                       int (length b) = n + 1 \<and> distinct b \<and> set b \<subseteq> set (pnts D))
                 \<and> (\<forall>i < length (blcks D). \<forall>j < length (blcks D). i \<noteq> j \<longrightarrow>
                       card (set (blcks D ! i) \<inter> set (blcks D ! j)) = 1)"
    if ok: "\<not> nonexistent \<and> prime_power \<or> n \<in> {2, 3, 4, 5}"
      and FF: "FF n = Some K" and K: "distinct K" "set K = UNIV" and n: "int (length K) = n"
      and iter: "distinct (iter (relabel_dict K))" "set (iter (relabel_dict K)) = dom (relabel_dict K)"
  proof -
    have call: "projective_plane FF iter chk n = DesarguesianProjectivePlaneDesign FF iter chk n True"
      using ok c f by blast
    from Desarguesian_plane_design [of FF n K iter chk, OF FF K n iter]
    obtain D sa h where D:
      "DesarguesianProjectivePlaneDesign FF iter chk n False = Inr D"
      "DesarguesianProjectivePlaneDesign FF iter chk n True = (if chk D then Inr D else Inl TypeError)"
      "pnts D = range1 (n\<^sup>2 + n + 1)"
      "int (length (pnts D)) = n\<^sup>2 + n + 1"
      "int (length (blcks D)) = n\<^sup>2 + n + 1"
      "\<forall>b \<in> set (blcks D). int (length b) = n + 1 \<and> distinct b \<and> set b \<subseteq> set (pnts D)"
      "\<forall>i < length (blcks D). \<forall>j < length (blcks D). i \<noteq> j \<longrightarrow>
               card (set (blcks D ! i) \<inter> set (blcks D ! j)) = 1"
      by (elim exE conjE) (rule that; assumption)
    have r: "projective_plane FF iter chk n = (if chk D then Inr D else Inl TypeError)"
      using call D(2) by simp
    show ?thesis
      by (rule exI [of _ D]) (intro conjI r D)
  qed
  have g': "(\<not> nonexistent \<and> prime_power \<or> n \<in> {2, 3, 4, 5})
            \<and> FF n = Some K \<and> distinct K \<and> set K = UNIV \<and> int (length K) = n
            \<and> distinct (iter (relabel_dict K)) \<and> set (iter (relabel_dict K)) = dom (relabel_dict K)
          \<longrightarrow> (\<exists>D. projective_plane FF iter chk n = (if chk D then Inr D else Inl TypeError)
                 \<and> DesarguesianProjectivePlaneDesign FF iter chk n False = Inr D
                 \<and> pnts D = range1 (n\<^sup>2 + n + 1)
                 \<and> int (length (pnts D)) = n\<^sup>2 + n + 1
                 \<and> int (length (blcks D)) = n\<^sup>2 + n + 1
                 \<and> (\<forall>b \<in> set (blcks D).
                       int (length b) = n + 1 \<and> distinct b \<and> set b \<subseteq> set (pnts D))
                 \<and> (\<forall>i < length (blcks D). \<forall>j < length (blcks D). i \<noteq> j \<longrightarrow>
                       card (set (blcks D ! i) \<inter> set (blcks D ! j)) = 1))"
  proof (intro impI, elim conjE)
    assume "\<not> nonexistent \<and> prime_power \<or> n \<in> {2, 3, 4, 5}" "FF n = Some K" "distinct K"
      "set K = UNIV" "int (length K) = n" "distinct (iter (relabel_dict K))"
      "set (iter (relabel_dict K)) = dom (relabel_dict K)"
    then show "\<exists>D. projective_plane FF iter chk n = (if chk D then Inr D else Inl TypeError)
                 \<and> DesarguesianProjectivePlaneDesign FF iter chk n False = Inr D
                 \<and> pnts D = range1 (n\<^sup>2 + n + 1)
                 \<and> int (length (pnts D)) = n\<^sup>2 + n + 1
                 \<and> int (length (blcks D)) = n\<^sup>2 + n + 1
                 \<and> (\<forall>b \<in> set (blcks D).
                       int (length b) = n + 1 \<and> distinct b \<and> set b \<subseteq> set (pnts D))
                 \<and> (\<forall>i < length (blcks D). \<forall>j < length (blcks D). i \<noteq> j \<longrightarrow>
                       card (set (blcks D ! i) \<inter> set (blcks D ! j)) = 1)"
      by (rule g)
  qed
  show ?thesis by (intro conjI a b c d e f g')
qed

theorem projective_plane_cases_witness:
  "\<exists>D. projective_plane FiniteField3 iter_up lenient_checker 3 = Inr D
      \<and> projective_plane FiniteField3 iter_up strict_checker 3 = Inl TypeError
      \<and> length (pnts D) = 13
      \<and> length (blcks D) = 13
      \<and> length (blcks D ! 7) = 4
      \<and> card (set (blcks D ! 0) \<inter> set (blcks D ! 1)) = 1
      \<and> projective_plane FiniteField3 iter_up lenient_checker 6 = Inl EmptySetError
      \<and> projective_plane FiniteField3 iter_up lenient_checker 12 = Inl NotImplementedError"
proof -
  have F: "FiniteField3 3 = Some [G0, G1, G2]" "distinct [G0, G1, G2]" "set [G0, G1, G2] = UNIV"
    "int (length [G0, G1, G2]) = 3"
    by (simp_all add: FiniteField3_def gf3_UNIV)
  have hyp: "(\<not> ((3::int) \<le> 1 \<or> (3::int) = 10 \<or> ((3::int) mod 4 \<in> {1, 2} \<and> \<not> (\<exists>a b::int. 3 = a\<^sup>2 + b\<^sup>2)))
        \<and> (\<exists>p k. is_prime p \<and> 1 \<le> k \<and> (3::int) = int (p ^ k)) \<or> (3::int) \<in> {2, 3, 4, 5})
      \<and> FiniteField3 3 = Some [G0, G1, G2] \<and> distinct [G0, G1, G2] \<and> set [G0, G1, G2] = UNIV
      \<and> int (length [G0, G1, G2]) = 3
      \<and> distinct (iter_up (relabel_dict [G0, G1, G2]))
      \<and> set (iter_up (relabel_dict [G0, G1, G2])) = dom (relabel_dict [G0, G1, G2])"
    using F gf3_iter(1,2) by simp
  note T3 = projective_plane_cases [of FiniteField3 iter_up lenient_checker 3 "[G0, G1, G2]"]
  note S3 = projective_plane_cases [of FiniteField3 iter_up strict_checker 3 "[G0, G1, G2]"]
  note T6 = projective_plane_cases [of FiniteField3 iter_up lenient_checker 6 "[G0, G1, G2]"]
  note T12 = projective_plane_cases [of FiniteField3 iter_up lenient_checker 12 "[G0, G1, G2]"]
  have e6: "projective_plane FiniteField3 iter_up lenient_checker 6 = Inl EmptySetError"
    using T6 [THEN conjunct2, THEN conjunct2, THEN conjunct2, THEN conjunct1] by simp
  have e12: "projective_plane FiniteField3 iter_up lenient_checker 12 = Inl NotImplementedError"
    using T12 [THEN conjunct2, THEN conjunct2, THEN conjunct2, THEN conjunct2, THEN conjunct1] by simp
  from T3 [THEN conjunct2, THEN conjunct2, THEN conjunct2, THEN conjunct2, THEN conjunct2,
      THEN conjunct2, rule_format, OF hyp]
  obtain D where D:
    "projective_plane FiniteField3 iter_up lenient_checker 3 = (if lenient_checker D then Inr D else Inl TypeError)"
    "DesarguesianProjectivePlaneDesign FiniteField3 iter_up lenient_checker 3 False = Inr D"
    "int (length (pnts D)) = 3\<^sup>2 + 3 + 1"
    "int (length (blcks D)) = 3\<^sup>2 + 3 + 1"
    "\<forall>b \<in> set (blcks D). int (length b) = 3 + 1 \<and> distinct b \<and> set b \<subseteq> set (pnts D)"
    "\<forall>i < length (blcks D). \<forall>j < length (blcks D). i \<noteq> j \<longrightarrow>
               card (set (blcks D ! i) \<inter> set (blcks D ! j)) = 1"
    by (elim exE conjE) (rule that; assumption)
  from S3 [THEN conjunct2, THEN conjunct2, THEN conjunct2, THEN conjunct2, THEN conjunct2,
      THEN conjunct2, rule_format, OF hyp]
  obtain D' where D':
    "projective_plane FiniteField3 iter_up strict_checker 3 = (if strict_checker D' then Inr D' else Inl TypeError)"
    by (elim exE conjE) (rule that; assumption)
  have s: "projective_plane FiniteField3 iter_up strict_checker 3 = Inl TypeError"
    using D' by (simp add: strict_checker_def)
  have r: "projective_plane FiniteField3 iter_up lenient_checker 3 = Inr D"
    using D(1) by (simp add: lenient_checker_def)
  have l: "length (pnts D) = 13" "length (blcks D) = 13" using D(3,4) by simp_all
  have "blcks D ! 7 \<in> set (blcks D)" using l by simp
  with D(5) have "int (length (blcks D ! 7)) = 3 + 1" by blast
  then have l7: "length (blcks D ! 7) = 4" by simp
  have m: "card (set (blcks D ! 0) \<inter> set (blcks D ! 1)) = 1"
    using D(6) [rule_format, of 0 1] l by simp
  show ?thesis
    by (rule exI [of _ D]) (intro conjI r s l l7 m e6 e12)
qed

subsection \<open>The orthogonal array of a projective plane\<close>

lemma pencil_loop_filter:
  "\<forall>b \<in> set bs. int (length b) = n + 1 \<Longrightarrow>
     pencil_loop n pt bs (L, OA) = Inr (L @ pencil pt bs, OA @ transversals pt bs)"
  by (induction bs arbitrary: L OA) (simp_all add: pencil_def transversals_def)

lemma filter_two:
  assumes "i < length xs" "j < length xs" "i \<noteq> j" "P (xs ! i)" "P (xs ! j)"
  shows "2 \<le> length (filter P xs)"
proof -
  have "{i, j} \<subseteq> {k. k < length xs \<and> P (xs ! k)}" using assms by simp
  then have "card {i, j} \<le> card {k. k < length xs \<and> P (xs ! k)}"
    by (intro card_mono) simp_all
  then show ?thesis using assms(3) by (simp add: length_filter_conv_card)
qed

lemma filter_one_unique:
  assumes "length (filter P xs) = 1" "i < length xs" "j < length xs" "P (xs ! i)" "P (xs ! j)"
  shows "i = j"
  using filter_two [of i xs j P] assms by fastforce

lemma filter_one_ex:
  assumes "length (filter P xs) = 1"
  shows "\<exists>x \<in> set xs. P x"
proof -
  from assms have "filter P xs \<noteq> []" by auto
  then show ?thesis by (simp add: filter_empty_conv)
qed

lemma nth_filter_ex:
  assumes "k < length (filter P xs)"
  shows "\<exists>i < length xs. xs ! i = filter P xs ! k \<and> P (xs ! i)"
proof -
  have "filter P xs ! k \<in> set (filter P xs)" using assms by (rule nth_mem)
  then have "filter P xs ! k \<in> set xs" "P (filter P xs ! k)" by simp_all
  then show ?thesis by (metis in_set_conv_nth)
qed

text \<open>Two positions of a filtered list come from two positions of the list.\<close>

lemma filter_positions:
  assumes "k < length (filter P xs)" "k' < length (filter P xs)" "k \<noteq> k'"
  shows "\<exists>i j. i < length xs \<and> j < length xs \<and> i \<noteq> j
           \<and> xs ! i = filter P xs ! k \<and> xs ! j = filter P xs ! k'"
  using assms
proof (induction xs arbitrary: k k')
  case Nil
  then show ?case by simp
next
  case (Cons x xs)
  show ?case
  proof (cases "P x")
    case False
    with Cons.prems Cons.IH [of k k'] obtain i j where
      "i < length xs" "j < length xs" "i \<noteq> j" "xs ! i = filter P xs ! k" "xs ! j = filter P xs ! k'"
      by auto
    then have "Suc i < length (x # xs) \<and> Suc j < length (x # xs) \<and> Suc i \<noteq> Suc j
        \<and> (x # xs) ! Suc i = filter P (x # xs) ! k \<and> (x # xs) ! Suc j = filter P (x # xs) ! k'"
      using False by simp
    then show ?thesis by blast
  next
    case True
    show ?thesis
    proof (cases k)
      case 0
      with Cons.prems obtain m where m: "k' = Suc m" by (cases k') auto
      with Cons.prems True have "m < length (filter P xs)" by simp
      from nth_filter_ex [OF this] obtain j where "j < length xs" "xs ! j = filter P xs ! m" by blast
      then have "0 < length (x # xs) \<and> Suc j < length (x # xs) \<and> 0 \<noteq> Suc j
        \<and> (x # xs) ! 0 = filter P (x # xs) ! k \<and> (x # xs) ! Suc j = filter P (x # xs) ! k'"
        using True 0 m by simp
      then show ?thesis by blast
    next
      case (Suc m)
      show ?thesis
      proof (cases k')
        case 0
        from Cons.prems True Suc have "m < length (filter P xs)" by simp
        from nth_filter_ex [OF this] obtain j where "j < length xs" "xs ! j = filter P xs ! m" by blast
        then have "Suc j < length (x # xs) \<and> 0 < length (x # xs) \<and> Suc j \<noteq> 0
          \<and> (x # xs) ! Suc j = filter P (x # xs) ! k \<and> (x # xs) ! 0 = filter P (x # xs) ! k'"
          using True 0 Suc by simp
        then show ?thesis by blast
      next
        case k': (Suc m')
        from Cons.prems True Suc k' have "m < length (filter P xs)" "m' < length (filter P xs)" "m \<noteq> m'"
          by simp_all
        from Cons.IH [OF this] obtain i j where
          "i < length xs" "j < length xs" "i \<noteq> j" "xs ! i = filter P xs ! m" "xs ! j = filter P xs ! m'"
          by auto
        then have "Suc i < length (x # xs) \<and> Suc j < length (x # xs) \<and> Suc i \<noteq> Suc j
          \<and> (x # xs) ! Suc i = filter P (x # xs) ! k \<and> (x # xs) ! Suc j = filter P (x # xs) ! k'"
          using True Suc k' by simp
        then show ?thesis by blast
      qed
    qed
  qed
qed


lemma pencil_lines:
  assumes "plane_axioms N V B" "pt \<in> V" "l \<in> set (pencil pt B)"
  shows "length l = N" "distinct l" "set l \<subseteq> V - {pt}"
    and "\<exists>b \<in> set B. pt \<in> set b \<and> set l = set b - {pt}"
proof -
  from assms(3) obtain b where b: "b \<in> set B" "pt \<in> set b" "l = remove1 pt b"
    by (auto simp: pencil_def)
  have bb: "length b = Suc N" "distinct b" "set b \<subseteq> V"
    using assms(1) b(1) by (auto simp: plane_axioms_def)
  show "length l = N" using b bb by (simp add: length_remove1)
  show "distinct l" using b bb by simp
  have sl: "set l = set b - {pt}" using b bb by simp
  then show "set l \<subseteq> V - {pt}" using bb by auto
  show "\<exists>b \<in> set B. pt \<in> set b \<and> set l = set b - {pt}" using b sl by blast
qed

lemma pencil_nth:
  assumes "j < length (pencil pt B)"
  shows "\<exists>i < length B. pt \<in> set (B ! i) \<and> pencil pt B ! j = remove1 pt (B ! i)
           \<and> B ! i = filter (\<lambda>b. pt \<in> set b) B ! j"
proof -
  have j: "j < length (filter (\<lambda>b. pt \<in> set b) B)" using assms by (simp add: pencil_def)
  from nth_filter_ex [OF this] obtain i where
    "i < length B" "B ! i = filter (\<lambda>b. pt \<in> set b) B ! j" "pt \<in> set (B ! i)" by blast
  then show ?thesis using j by (auto simp: pencil_def)
qed

lemma pencil_disjoint:
  assumes ax: "plane_axioms N V B" and pt: "pt \<in> V"
    and j: "j < length (pencil pt B)" "j' < length (pencil pt B)" "j \<noteq> j'"
  shows "set (pencil pt B ! j) \<inter> set (pencil pt B ! j') = {}"
proof (rule ccontr)
  assume "set (pencil pt B ! j) \<inter> set (pencil pt B ! j') \<noteq> {}"
  then obtain x where x: "x \<in> set (pencil pt B ! j)" "x \<in> set (pencil pt B ! j')" by blast
  let ?pen = "filter (\<lambda>b. pt \<in> set b) B"
  have jj: "j < length ?pen" "j' < length ?pen" using j by (simp_all add: pencil_def)
  from filter_positions [OF jj j(3)] obtain i i' where
    i: "i < length B" "i' < length B" "i \<noteq> i'" "B ! i = ?pen ! j" "B ! i' = ?pen ! j'" by blast
  have lj: "pencil pt B ! j = remove1 pt (?pen ! j)" "pencil pt B ! j' = remove1 pt (?pen ! j')"
    using jj by (simp_all add: pencil_def)
  have "pencil pt B ! j \<in> set (pencil pt B)" using j(1) by (rule nth_mem)
  from pencil_lines(3) [OF ax pt this] x(1) have xV: "x \<in> V" "x \<noteq> pt" by auto
  have mem: "?pen ! j \<in> set ?pen" "?pen ! j' \<in> set ?pen" using jj by (simp_all only: nth_mem)
  then have ptin: "pt \<in> set (B ! i)" "pt \<in> set (B ! i')" using i(4,5) by simp_all
  have "x \<in> set (?pen ! j)" "x \<in> set (?pen ! j')"
    using x lj set_remove1_subset [of pt "?pen ! j"] set_remove1_subset [of pt "?pen ! j'"]
    by auto
  then have xin: "x \<in> set (B ! i)" "x \<in> set (B ! i')"
    using i(4,5) by simp_all
  have "2 \<le> length (filter (\<lambda>b. x \<in> set b \<and> pt \<in> set b) B)"
    using filter_two [of i B i' "\<lambda>b. x \<in> set b \<and> pt \<in> set b"] i(1-3) xin ptin by simp
  moreover have "length (filter (\<lambda>b. x \<in> set b \<and> pt \<in> set b) B) = 1"
    using ax xV pt by (simp add: plane_axioms_def)
  ultimately show False by simp
qed

lemma pencil_cover:
  assumes ax: "plane_axioms N V B" and pt: "pt \<in> V"
  shows "set (concat (pencil pt B)) = V - {pt}"
proof (rule set_eqI)
  fix x
  show "x \<in> set (concat (pencil pt B)) \<longleftrightarrow> x \<in> V - {pt}"
  proof
    assume "x \<in> set (concat (pencil pt B))"
    then obtain l where "l \<in> set (pencil pt B)" "x \<in> set l" by auto
    then show "x \<in> V - {pt}" using pencil_lines(3) [OF ax pt] by blast
  next
    assume x: "x \<in> V - {pt}"
    then have "length (filter (\<lambda>b. x \<in> set b \<and> pt \<in> set b) B) = 1"
      using ax pt by (simp add: plane_axioms_def)
    from filter_one_ex [OF this] obtain b where b: "b \<in> set B" "x \<in> set b" "pt \<in> set b" by blast
    have "distinct b" using ax b(1) by (simp add: plane_axioms_def)
    then have "x \<in> set (remove1 pt b)" using b(2) x by simp
    moreover have "remove1 pt b \<in> set (pencil pt B)" using b by (simp add: pencil_def)
    ultimately show "x \<in> set (concat (pencil pt B))" by auto
  qed
qed

lemma sum_list_const: "\<forall>x \<in> set xs. f x = (c::nat) \<Longrightarrow> sum_list (map f xs) = length xs * c"
  by (induction xs) simp_all

lemma pencil_distinct_concat:
  assumes ax: "plane_axioms N V B" and pt: "pt \<in> V"
  shows "distinct (concat (pencil pt B))"
proof (rule distinct_concat)
  have N: "1 \<le> N" using ax by (simp add: plane_axioms_def)
  have diff: "pencil pt B ! j \<noteq> pencil pt B ! j'"
    if "j < length (pencil pt B)" "j' < length (pencil pt B)" "j \<noteq> j'" for j j'
  proof
    assume eq: "pencil pt B ! j = pencil pt B ! j'"
    have "pencil pt B ! j \<in> set (pencil pt B)" using that(1) by (rule nth_mem)
    from pencil_lines(1) [OF ax pt this] N have "pencil pt B ! j \<noteq> []" by auto
    then have "set (pencil pt B ! j) \<noteq> {}" by simp
    with pencil_disjoint [OF ax pt that] eq show False by simp
  qed
  show "distinct (pencil pt B)"
    unfolding distinct_conv_nth using diff by blast
  show "distinct ys" if "ys \<in> set (pencil pt B)" for ys
    using pencil_lines(2) [OF ax pt that] .
  show "set ys \<inter> set zs = {}"
    if "ys \<in> set (pencil pt B)" "zs \<in> set (pencil pt B)" "ys \<noteq> zs" for ys zs
  proof -
    from that(1,2) obtain j j' where
      "j < length (pencil pt B)" "pencil pt B ! j = ys" "j' < length (pencil pt B)" "pencil pt B ! j' = zs"
      by (auto simp: in_set_conv_nth)
    moreover from this that(3) have "j \<noteq> j'" by auto
    ultimately show ?thesis using pencil_disjoint [OF ax pt, of j j'] by simp
  qed
qed

lemma pencil_length:
  assumes ax: "plane_axioms N V B" and pt: "pt \<in> V"
  shows "length (pencil pt B) = Suc N"
proof -
  have N: "1 \<le> N" and fin: "finite V" and cV: "card V = N * N + N + 1"
    using ax by (simp_all add: plane_axioms_def)
  have "length (concat (pencil pt B)) = card (set (concat (pencil pt B)))"
    using distinct_card [OF pencil_distinct_concat [OF ax pt]] by simp
  also have "\<dots> = card (V - {pt})" by (simp only: pencil_cover [OF ax pt])
  also have "\<dots> = N * N + N" using fin cV pt by simp
  finally have "length (concat (pencil pt B)) = N * N + N" .
  moreover have "length (concat (pencil pt B)) = length (pencil pt B) * N"
    using sum_list_const [of "pencil pt B" length N] pencil_lines(1) [OF ax pt]
    by (simp add: length_concat)
  ultimately have "length (pencil pt B) * N = Suc N * N" by simp
  then show ?thesis using N mult_right_cancel [of N "length (pencil pt B)" "Suc N"] by linarith
qed

lemma fold_upd_map_of:
  "distinct (map fst ps) \<Longrightarrow> fold (\<lambda>(k, v) m. m(k \<mapsto> v)) ps m = m ++ map_of ps"
proof (induction ps arbitrary: m)
  case Nil
  then show ?case by simp
next
  case (Cons p ps)
  obtain k v where p: "p = (k, v)" by (cases p)
  have k: "k \<notin> dom (map_of ps)" using Cons.prems p by (simp add: dom_map_of_conv_image_fst)
  have d: "distinct (map fst ps)" using Cons.prems by simp
  have "fold (\<lambda>(k, v) m. m(k \<mapsto> v)) (p # ps) m = fold (\<lambda>(k, v) m. m(k \<mapsto> v)) ps (m(k \<mapsto> v))"
    unfolding p by simp
  also have "\<dots> = m(k \<mapsto> v) ++ map_of ps" by (rule Cons.IH [OF d])
  also have "\<dots> = (m ++ map_of ps)(k \<mapsto> v)" using k by (rule map_add_upd_left)
  also have "\<dots> = m ++ map_of (p # ps)" using p by simp
  finally show ?case .
qed

lemma pencil_pairs_keys: "map fst (pencil_pairs L) = concat L"
proof -
  have inner: "map fst (map (\<lambda>(i, x). (x, (j, i))) (enumerate 0 l)) = l" for j :: nat and l :: "int list"
  proof -
    have "map fst (map (\<lambda>(i, x). (x, (j, i))) (enumerate 0 l)) = map snd (enumerate 0 l)"
      by (simp add: case_prod_unfold comp_def)
    then show ?thesis by simp
  qed
  have "map fst (concat (map (\<lambda>(j, l). map (\<lambda>(i, x). (x, (j, i))) (enumerate 0 l)) (enumerate k L)))
          = concat L" for k
  proof (induction L arbitrary: k)
    case Nil
    then show ?case by simp
  next
    case (Cons l L)
    show ?case using Cons.IH [of "Suc k"] inner [of k l] by simp
  qed
  then show ?thesis by (simp add: pencil_pairs_def)
qed

lemma pencil_pairs_mem:
  "(x, (j, i)) \<in> set (pencil_pairs L) \<longleftrightarrow> j < length L \<and> i < length (L ! j) \<and> L ! j ! i = x"
proof
  assume "(x, (j, i)) \<in> set (pencil_pairs L)"
  then obtain p where p: "p \<in> set (enumerate 0 L)"
    and m: "(x, (j, i)) \<in> set (map (\<lambda>(i, y). (y, (fst p, i))) (enumerate 0 (snd p)))"
    by (auto simp: pencil_pairs_def case_prod_unfold)
  from m obtain q where q: "q \<in> set (enumerate 0 (snd p))" and e: "(x, (j, i)) = (snd q, (fst p, fst q))"
    by (auto simp: case_prod_unfold)
  from p have "fst p < length L" "L ! fst p = snd p" by (simp_all add: in_set_enumerate_eq)
  moreover from q have "fst q < length (snd p)" "snd p ! fst q = snd q" by (simp_all add: in_set_enumerate_eq)
  ultimately show "j < length L \<and> i < length (L ! j) \<and> L ! j ! i = x" using e by simp
next
  assume a: "j < length L \<and> i < length (L ! j) \<and> L ! j ! i = x"
  then have p: "(j, L ! j) \<in> set (enumerate 0 L)" and q: "(i, x) \<in> set (enumerate 0 (L ! j))"
    by (simp_all add: in_set_enumerate_eq)
  have "(x, (j, i)) \<in> set (map (\<lambda>(i, y). (y, (j, i))) (enumerate 0 (L ! j)))"
    using q by (force simp: case_prod_unfold)
  then have "(x, (j, i)) \<in> set ((\<lambda>(j, l). map (\<lambda>(i, x). (x, (j, i))) (enumerate 0 l)) (j, L ! j))"
    by simp
  then show "(x, (j, i)) \<in> set (pencil_pairs L)"
    unfolding pencil_pairs_def set_concat using p by (metis (no_types, lifting) UN_iff imageI list.set_map)
qed

lemma pencil_relabel_Some:
  assumes "distinct (concat L)"
  shows "pencil_relabel L x = Some (j, i) \<longleftrightarrow> j < length L \<and> i < length (L ! j) \<and> L ! j ! i = x"
proof -
  have d: "distinct (map fst (pencil_pairs L))" using assms by (simp add: pencil_pairs_keys)
  have "pencil_relabel L = map_of (pencil_pairs L)"
    unfolding pencil_relabel_def using fold_upd_map_of [OF d, of Map.empty] by simp
  then show ?thesis using map_of_eq_Some_iff [OF d, of x "(j, i)"] pencil_pairs_mem [of x j i L] by simp
qed

lemma pencil_relabel_ex:
  assumes "distinct (concat L)" "x \<in> set (concat L)"
  shows "\<exists>j i. pencil_relabel L x = Some (j, i)"
proof -
  from assms(2) obtain l where "l \<in> set L" "x \<in> set l" by auto
  then obtain j i where "j < length L" "L ! j = l" "i < length l" "l ! i = x"
    by (metis in_set_conv_nth)
  then have "pencil_relabel L x = Some (j, i)" using pencil_relabel_Some [OF assms(1), of x j i] by simp
  then show ?thesis by blast
qed

lemma transversal_relabel:
  assumes ax: "plane_axioms N V B" and pt: "pt \<in> V" and l: "l \<in> set B" "pt \<notin> set l" and x: "x \<in> set l"
  shows "\<exists>j i. pencil_relabel (pencil pt B) x = Some (j, i) \<and> j < Suc N \<and> i < N
           \<and> pencil pt B ! j ! i = x"
proof -
  have "set l \<subseteq> V" using ax l(1) by (simp add: plane_axioms_def)
  then have "x \<in> V - {pt}" using x l(2) by auto
  then have xc: "x \<in> set (concat (pencil pt B))" by (simp only: pencil_cover [OF ax pt])
  have d: "distinct (concat (pencil pt B))" by (rule pencil_distinct_concat [OF ax pt])
  from pencil_relabel_ex [OF d xc] obtain j i where r: "pencil_relabel (pencil pt B) x = Some (j, i)"
    by blast
  then have ji: "j < length (pencil pt B)" "i < length (pencil pt B ! j)" "pencil pt B ! j ! i = x"
    using pencil_relabel_Some [OF d, of x j i] by simp_all
  have "pencil pt B ! j \<in> set (pencil pt B)" using ji(1) by (rule nth_mem)
  then have "length (pencil pt B ! j) = N" by (rule pencil_lines(1) [OF ax pt])
  then show ?thesis using r ji pencil_length [OF ax pt] by auto
qed

lemma transversal_one_per_line:
  assumes ax: "plane_axioms N V B" and pt: "pt \<in> V" and l: "l \<in> set B" "pt \<notin> set l"
    and x: "x \<in> set l" "pencil_relabel (pencil pt B) x = Some (j, i)"
    and y: "y \<in> set l" "pencil_relabel (pencil pt B) y = Some (j, i')"
  shows "x = y"
proof (rule ccontr)
  assume ne: "x \<noteq> y"
  have d: "distinct (concat (pencil pt B))" by (rule pencil_distinct_concat [OF ax pt])
  have jx: "j < length (pencil pt B)" "i < length (pencil pt B ! j)" "pencil pt B ! j ! i = x"
    using pencil_relabel_Some [OF d, of x j i] x(2) by simp_all
  have jy: "i' < length (pencil pt B ! j)" "pencil pt B ! j ! i' = y"
    using pencil_relabel_Some [OF d, of y j i'] y(2) by simp_all
  from pencil_nth [OF jx(1)] obtain k where
    k: "k < length B" "pt \<in> set (B ! k)" "pencil pt B ! j = remove1 pt (B ! k)" by blast
  have "x \<in> set (pencil pt B ! j)" "y \<in> set (pencil pt B ! j)"
    using jx jy nth_mem by metis+
  then have xy: "x \<in> set (B ! k)" "y \<in> set (B ! k)"
    using k(3) set_remove1_subset [of pt "B ! k"] by auto
  from l(1) obtain k' where k': "k' < length B" "B ! k' = l" by (auto simp: in_set_conv_nth)
  have "k \<noteq> k'" using k(2) k'(2) l(2) by auto
  then have one: "card (set (B ! k) \<inter> set (B ! k')) = 1"
    using ax k(1) k'(1) by (simp add: plane_axioms_def)
  have "{x, y} \<subseteq> set (B ! k) \<inter> set (B ! k')" using xy x(1) y(1) k'(2) by simp
  then have "card {x, y} \<le> card (set (B ! k) \<inter> set (B ! k'))"
    by (intro card_mono) simp_all
  then show False using one ne by simp
qed

lemma fst_mono_lex: "(x :: nat \<times> nat) \<le> y \<Longrightarrow> fst x \<le> fst y"
  by (auto simp: less_eq_prod_def)

lemma sorted_fst_sort: "sorted (map fst (sort (ps :: (nat \<times> nat) list)))"
proof -
  have "sorted_wrt (\<le>) (sort ps)" using sorted_sort [of ps] by simp
  then have "sorted_wrt (\<lambda>x y. fst x \<le> fst y) (sort ps)"
    by (rule sorted_wrt_mono_rel [rotated]) (rule fst_mono_lex)
  then show ?thesis by (simp add: sorted_map)
qed

lemma sort_fst_upt:
  fixes ps :: "(nat \<times> nat) list"
  assumes "distinct (map fst ps)" "set (map fst ps) = {..<m}"
  shows "map fst (sort ps) = [0..<m]"
proof (rule sorted_distinct_set_unique)
  show "sorted (map fst (sort ps))" by (rule sorted_fst_sort)
  have st: "set (map fst (sort ps)) = set (map fst ps)" by simp
  have "card (set (map fst (sort ps))) = length (map fst (sort ps))"
    unfolding st using distinct_card [OF assms(1)] by simp
  then show "distinct (map fst (sort ps))" by (rule card_distinct)
  show "sorted [0..<m]" by simp
  show "distinct [0..<m]" by simp
  show "set (map fst (sort ps)) = set [0..<m]"
    unfolding st assms(2) by (simp add: atLeast0LessThan)
qed

lemma transversal_row:
  assumes ax: "plane_axioms N V B" and pt: "pt \<in> V" and l: "l \<in> set B" "pt \<notin> set l"
  shows "\<exists>ps. map_option sort (those (map (pencil_relabel (pencil pt B)) l)) = Some ps
           \<and> map fst ps = [0..<Suc N]
           \<and> (\<forall>c < Suc N. snd (ps ! c) < N \<and> pencil pt B ! c ! snd (ps ! c) \<in> set l)"
proof -
  define g where "g x = the (pencil_relabel (pencil pt B) x)" for x
  have gx: "pencil_relabel (pencil pt B) x = Some (g x) \<and> fst (g x) < Suc N \<and> snd (g x) < N
              \<and> pencil pt B ! fst (g x) ! snd (g x) = x" if "x \<in> set l" for x
    using transversal_relabel [OF ax pt l that] by (auto simp: g_def)
  have th: "those (map (pencil_relabel (pencil pt B)) l) = Some (map g l)"
    by (rule those_map_Some) (use gx in blast)
  have dl: "distinct l" and ll: "length l = Suc N" using ax l(1) by (simp_all add: plane_axioms_def)
  have inj: "inj_on (\<lambda>x. fst (g x)) (set l)"
  proof (rule inj_onI)
    fix x y assume xy: "x \<in> set l" "y \<in> set l" "fst (g x) = fst (g y)"
    have a: "pencil_relabel (pencil pt B) x = Some (fst (g x), snd (g x))" using gx [OF xy(1)] by simp
    have b: "pencil_relabel (pencil pt B) y = Some (fst (g x), snd (g y))"
      using gx [OF xy(2)] xy(3) by simp
    show "x = y" by (rule transversal_one_per_line [OF ax pt l xy(1) a xy(2) b])
  qed
  have d: "distinct (map fst (map g l))"
    using dl inj by (simp add: distinct_map comp_def)
  have sub: "set (map fst (map g l)) \<subseteq> {..<Suc N}" using gx by auto
  have "card (set (map fst (map g l))) = Suc N"
    using distinct_card [OF d] ll by simp
  then have st: "set (map fst (map g l)) = {..<Suc N}"
    using sub by (intro card_subset_eq) simp_all
  have fs: "map fst (sort (map g l)) = [0..<Suc N]"
    by (rule sort_fst_upt [OF d st])
  have cols: "snd (sort (map g l) ! c) < N \<and> pencil pt B ! c ! snd (sort (map g l) ! c) \<in> set l"
    if c: "c < Suc N" for c
  proof -
    have len: "length (sort (map g l)) = Suc N" using ll by simp
    have "c < length (sort (map g l))" using c len by simp
    then have "sort (map g l) ! c \<in> set (sort (map g l))" by (rule nth_mem)
    then have "sort (map g l) ! c \<in> set (map g l)" by simp
    then obtain x where x: "x \<in> set l" "sort (map g l) ! c = g x" by auto
    have "fst (sort (map g l) ! c) = map fst (sort (map g l)) ! c" using c len by simp
    also have "\<dots> = c" unfolding fs using c by (simp del: upt_Suc)
    finally have "fst (g x) = c" using x(2) by simp
    then show ?thesis using gx [OF x(1)] x by auto
  qed
  show ?thesis
    by (rule exI [of _ "sort (map g l)"]) (use th fs cols in simp)
qed

lemma length_transversals:
  assumes ax: "plane_axioms N V B" and pt: "pt \<in> V"
  shows "length (transversals pt B) = N * N"
proof -
  have "length B = length (filter (\<lambda>b. pt \<in> set b) B) + length (filter (\<lambda>b. pt \<notin> set b) B)"
    using sum_length_filter_compl [of "\<lambda>b. pt \<in> set b" B] by simp
  moreover have "length (filter (\<lambda>b. pt \<in> set b) B) = Suc N"
    using pencil_length [OF ax pt] by (simp add: pencil_def)
  moreover have "length B = N * N + N + 1" using ax by (simp add: plane_axioms_def)
  ultimately show ?thesis by (simp add: transversals_def)
qed

lemma oa_rows_plane:
  assumes ax: "plane_axioms N V B" and pt: "pt \<in> V"
  shows "\<exists>OA. oa_rows (pencil_relabel (pencil pt B)) (transversals pt B) = Some OA
           \<and> length OA = N * N
           \<and> (\<forall>k < N * N. length (OA ! k) = Suc N
                 \<and> (\<forall>c < Suc N. \<exists>s < N. OA ! k ! c = int s
                        \<and> pencil pt B ! c ! s \<in> set (transversals pt B ! k)))"
proof -
  let ?R = "pencil_relabel (pencil pt B)"
  let ?T = "transversals pt B"
  define f where "f l = the (map_option sort (those (map ?R l)))" for l
  have fl: "map_option sort (those (map ?R l)) = Some (f l) \<and> map fst (f l) = [0..<Suc N]
            \<and> (\<forall>c < Suc N. snd (f l ! c) < N \<and> pencil pt B ! c ! snd (f l ! c) \<in> set l)"
    if "l \<in> set ?T" for l
  proof -
    have l: "l \<in> set B" "pt \<notin> set l" using that by (simp_all add: transversals_def)
    from transversal_row [OF ax pt l] show ?thesis by (auto simp: f_def)
  qed
  have th: "those (map (\<lambda>l. map_option sort (those (map ?R l))) ?T) = Some (map f ?T)"
    by (rule those_map_Some) (use fl in blast)
  define OA where "OA = map (\<lambda>l. map (\<lambda>x. int (snd x)) l) (map f ?T)"
  have run: "oa_rows ?R ?T = Some OA" by (simp add: oa_rows_def th OA_def)
  have len: "length OA = N * N" by (simp add: OA_def length_transversals [OF ax pt])
  have rows: "length (OA ! k) = Suc N
                 \<and> (\<forall>c < Suc N. \<exists>s < N. OA ! k ! c = int s \<and> pencil pt B ! c ! s \<in> set (?T ! k))"
    if k: "k < N * N" for k
  proof -
    have kT: "k < length ?T" using k by (simp add: length_transversals [OF ax pt])
    then have mem: "?T ! k \<in> set ?T" by (rule nth_mem)
    note F = fl [OF mem]
    have row: "OA ! k = map (\<lambda>x. int (snd x)) (f (?T ! k))" using kT by (simp add: OA_def)
    have "length (f (?T ! k)) = length (map fst (f (?T ! k)))" by simp
    also have "\<dots> = Suc N" using F by (simp del: upt_Suc)
    finally have lf: "length (f (?T ! k)) = Suc N" .
    have "\<exists>s < N. OA ! k ! c = int s \<and> pencil pt B ! c ! s \<in> set (?T ! k)" if "c < Suc N" for c
      by (rule exI [of _ "snd (f (?T ! k) ! c)"]) (use F that lf row in simp)
    then show ?thesis using row lf by simp
  qed
  show ?thesis by (rule exI [of _ OA]) (use run len rows in blast)
qed

lemma orthogonal_columns:
  assumes ax: "plane_axioms N V B" and pt: "pt \<in> V"
    and len: "length OA = N * N"
    and rows: "\<forall>k < N * N. length (OA ! k) = Suc N
                 \<and> (\<forall>c < Suc N. \<exists>s < N. OA ! k ! c = int s
                        \<and> pencil pt B ! c ! s \<in> set (transversals pt B ! k))"
    and c: "c1 < Suc N" "c2 < Suc N" "c1 \<noteq> c2"
  shows "bij_betw (\<lambda>k. (OA ! k ! c1, OA ! k ! c2)) {..<length OA} ({0..<int N} \<times> {0..<int N})"
proof -
  let ?T = "transversals pt B"
  let ?L = "pencil pt B"
  let ?f = "\<lambda>k. (OA ! k ! c1, OA ! k ! c2)"
  have lT: "length ?T = N * N" by (rule length_transversals [OF ax pt])
  have lL: "length ?L = Suc N" by (rule pencil_length [OF ax pt])
  have col: "\<exists>s < N. OA ! k ! c = int s \<and> ?L ! c ! s \<in> set (?T ! k)" if "k < N * N" "c < Suc N" for k c
    using rows that by blast
  have inj: "inj_on ?f {..<length OA}"
  proof (rule inj_onI)
    fix k k' assume k: "k \<in> {..<length OA}" "k' \<in> {..<length OA}" and eq: "?f k = ?f k'"
    have kk: "k < N * N" "k' < N * N" using k len by simp_all
    from col [OF kk(1) c(1)] obtain s1 where s1: "s1 < N" "OA ! k ! c1 = int s1" "?L ! c1 ! s1 \<in> set (?T ! k)" by blast
    from col [OF kk(1) c(2)] obtain s2 where s2: "s2 < N" "OA ! k ! c2 = int s2" "?L ! c2 ! s2 \<in> set (?T ! k)" by blast
    from col [OF kk(2) c(1)] obtain t1 where t1: "t1 < N" "OA ! k' ! c1 = int t1" "?L ! c1 ! t1 \<in> set (?T ! k')" by blast
    from col [OF kk(2) c(2)] obtain t2 where t2: "t2 < N" "OA ! k' ! c2 = int t2" "?L ! c2 ! t2 \<in> set (?T ! k')" by blast
    have st: "s1 = t1" "s2 = t2" using eq s1(2) s2(2) t1(2) t2(2) by simp_all
    define x where "x = ?L ! c1 ! s1"
    define y where "y = ?L ! c2 ! s2"
    have xin: "x \<in> set (?T ! k)" "x \<in> set (?T ! k')" using s1(3) t1(3) st by (simp_all add: x_def)
    have yin: "y \<in> set (?T ! k)" "y \<in> set (?T ! k')" using s2(3) t2(3) st by (simp_all add: y_def)
    have m1: "?L ! c1 \<in> set ?L" "?L ! c2 \<in> set ?L" using c lL by simp_all
    have "length (?L ! c1) = N" "length (?L ! c2) = N"
      using pencil_lines(1) [OF ax pt m1(1)] pencil_lines(1) [OF ax pt m1(2)] by simp_all
    then have "x \<in> set (?L ! c1)" "y \<in> set (?L ! c2)" using s1(1) s2(1) by (simp_all add: x_def y_def)
    moreover have "set (?L ! c1) \<inter> set (?L ! c2) = {}"
      using pencil_disjoint [OF ax pt, of c1 c2] c lL by simp
    ultimately have ne: "x \<noteq> y" by auto
    have Tk: "?T ! k \<in> set ?T" using kk(1) lT by simp
    then have "?T ! k \<in> set B" by (simp add: transversals_def)
    then have "set (?T ! k) \<subseteq> V" using ax by (simp add: plane_axioms_def)
    then have xyV: "x \<in> V" "y \<in> V" using xin(1) yin(1) by auto
    have one: "length (filter (\<lambda>b. x \<in> set b \<and> y \<in> set b) B) = 1"
      using ax xyV ne by (simp add: plane_axioms_def)
    show "k = k'"
    proof (rule ccontr)
      assume "k \<noteq> k'"
      have kT: "k < length (filter (\<lambda>b. pt \<notin> set b) B)" "k' < length (filter (\<lambda>b. pt \<notin> set b) B)"
        using kk lT by (simp_all add: transversals_def)
      from filter_positions [OF kT \<open>k \<noteq> k'\<close>] obtain i i' where
        i: "i < length B" "i' < length B" "i \<noteq> i'" "B ! i = ?T ! k" "B ! i' = ?T ! k'"
        by (auto simp: transversals_def)
      have "2 \<le> length (filter (\<lambda>b. x \<in> set b \<and> y \<in> set b) B)"
        using filter_two [of i B i' "\<lambda>b. x \<in> set b \<and> y \<in> set b"] i xin yin by simp
      then show False using one by simp
    qed
  qed
  have sub: "?f ` {..<length OA} \<subseteq> {0..<int N} \<times> {0..<int N}"
  proof
    fix p assume "p \<in> ?f ` {..<length OA}"
    then obtain k where k: "k < N * N" "p = ?f k" using len by auto
    from col [OF k(1) c(1)] col [OF k(1) c(2)] k(2)
    show "p \<in> {0..<int N} \<times> {0..<int N}" by auto
  qed
  have "card (?f ` {..<length OA}) = N * N" using card_image [OF inj] len by simp
  moreover have "card ({0..<int N} \<times> {0..<int N}) = N * N" by (simp add: card_cartesian_product)
  ultimately have "?f ` {..<length OA} = {0..<int N} \<times> {0..<int N}"
    using sub by (intro card_subset_eq) simp_all
  then show ?thesis using inj by (simp add: bij_betw_def)
qed

lemma plane_axioms_of_design:
  assumes "is_projective_plane n D"
  shows "plane_axioms (nat n) (set (pnts D)) (blcks D)"
proof -
  have n: "1 \<le> n" and P: "pnts D = range1 (n\<^sup>2 + n + 1)"
    and lB: "int (length (blcks D)) = n\<^sup>2 + n + 1"
    and blk: "\<forall>b \<in> set (blcks D). int (length b) = n + 1 \<and> distinct b \<and> set b \<subseteq> set (pnts D)"
    and meet': "\<forall>i \<in> {..<length (blcks D)}. \<forall>j \<in> {..<length (blcks D)}. i \<noteq> j \<longrightarrow>
         card (set (blcks D ! i) \<inter> set (blcks D ! j)) = 1"
    and join: "\<forall>x \<in> set (pnts D). \<forall>y \<in> set (pnts D). x \<noteq> y \<longrightarrow>
         length (filter (\<lambda>b. x \<in> set b \<and> y \<in> set b) (blcks D)) = 1"
    using assms unfolding is_projective_plane_def by blast+
  have v: "int (nat n * nat n + nat n + 1) = n\<^sup>2 + n + 1"
    using n by (simp add: power2_eq_square)
  have "card (set (pnts D)) = nat (n\<^sup>2 + n + 1)" by (simp add: P set_range1)
  then have c: "card (set (pnts D)) = nat n * nat n + nat n + 1" using v by linarith
  have l: "length (blcks D) = nat n * nat n + nat n + 1" using lB v by linarith
  have b: "\<forall>b \<in> set (blcks D). length b = Suc (nat n) \<and> distinct b \<and> set b \<subseteq> set (pnts D)"
  proof
    fix b assume "b \<in> set (blcks D)"
    with blk have "int (length b) = n + 1" "distinct b" "set b \<subseteq> set (pnts D)" by blast+
    then show "length b = Suc (nat n) \<and> distinct b \<and> set b \<subseteq> set (pnts D)" using n by simp
  qed
  have meet: "\<forall>i < length (blcks D). \<forall>j < length (blcks D). i \<noteq> j \<longrightarrow>
         card (set (blcks D ! i) \<inter> set (blcks D ! j)) = 1"
    using meet' by simp
  have n1: "1 \<le> nat n" using n by simp
  show ?thesis unfolding plane_axioms_def
    by (intro conjI n1 c l b meet join) simp
qed

lemma projective_plane_to_OA_plane:
  assumes pl: "is_projective_plane n D"
    and pt: "case pt of None \<Rightarrow> True | Some p \<Rightarrow> p \<in> set (pnts D)"
  shows "\<exists>OA. projective_plane_to_OA is_orthogonal_array D pt check = Inr OA
           \<and> int (length OA) = n\<^sup>2
           \<and> (\<forall>r \<in> set OA. int (length r) = n + 1 \<and> (\<forall>s \<in> set r. 0 \<le> s \<and> s < n))
           \<and> (\<forall>c1 < nat (n + 1). \<forall>c2 < nat (n + 1). c1 \<noteq> c2 \<longrightarrow>
                 bij_betw (\<lambda>k. (OA ! k ! c1, OA ! k ! c2)) {..<length OA} ({0..<n} \<times> {0..<n}))"
proof -
  define N where "N = nat n"
  define B where "B = blcks D"
  define V where "V = set (pnts D)"
  have n: "1 \<le> n" and P: "pnts D = range1 (n\<^sup>2 + n + 1)"
    and lB: "int (length B) = n\<^sup>2 + n + 1"
    and blk: "\<forall>b \<in> set B. int (length b) = n + 1"
    using pl unfolding is_projective_plane_def B_def by blast+
  have nN: "int N = n" "nat (n + 1) = Suc N" using n by (simp_all add: N_def)
  have ax: "plane_axioms N V B" unfolding N_def V_def B_def by (rule plane_axioms_of_design [OF pl])
  define p where "p = (case pt of None \<Rightarrow> n\<^sup>2 + n | Some q \<Rightarrow> q)"
  have "n\<^sup>2 + n \<in> V" using n by (simp add: V_def P set_range1)
  then have pV: "p \<in> V" using pt by (cases pt) (simp_all add: p_def V_def)
  have "B \<noteq> []" using lB order_count_nonneg [of n] by auto
  then obtain b0 bs where Bc: "B = b0 # bs" by (cases B) auto
  have b0: "int (length b0) - 1 = n" using blk Bc by simp
  have D: "D = \<lparr>pnts = pnts D, blcks = b0 # bs\<rparr>" using Bc by (simp add: B_def)
  have loop: "pencil_loop n p (b0 # bs) ([], []) = Inr (pencil p B, transversals p B)"
    using pencil_loop_filter [of B n p "[]" "[]"] blk Bc by simp
  have lp: "int (length (pencil p B)) = n + 1" using pencil_length [OF ax pV] nN by simp
  from oa_rows_plane [OF ax pV] obtain OA where
    run: "oa_rows (pencil_relabel (pencil p B)) (transversals p B) = Some OA"
    and len: "length OA = N * N"
    and rows: "\<forall>k < N * N. length (OA ! k) = Suc N
                 \<and> (\<forall>c < Suc N. \<exists>s < N. OA ! k ! c = int s
                        \<and> pencil p B ! c ! s \<in> set (transversals p B ! k))"
    by blast
  have res: "projective_plane_to_OA is_orthogonal_array D pt check = Inr OA"
    using projective_plane_to_OA_Cons [of n b0 p pt is_orthogonal_array "pnts D" bs check] b0 p_def D lB Bc
      loop lp run
    by simp
  have l2: "int (length OA) = n\<^sup>2" using len nN by (simp add: power2_eq_square flip: nN(1))
  have rw: "int (length r) = n + 1 \<and> (\<forall>s \<in> set r. 0 \<le> s \<and> s < n)" if "r \<in> set OA" for r
  proof -
    from that obtain k where k: "k < N * N" "OA ! k = r" using len by (auto simp: in_set_conv_nth)
    from rows k(1) have lr: "length (OA ! k) = Suc N"
      and cols: "\<forall>c < Suc N. \<exists>s < N. OA ! k ! c = int s" by blast+
    have "0 \<le> s \<and> s < n" if "s \<in> set r" for s
    proof -
      from that obtain c where "c < length r" "r ! c = s" by (auto simp: in_set_conv_nth)
      with cols lr k(2) nN(1) show ?thesis by auto
    qed
    then show ?thesis using lr k(2) nN by auto
  qed
  have orth: "bij_betw (\<lambda>k. (OA ! k ! c1, OA ! k ! c2)) {..<length OA} ({0..<n} \<times> {0..<n})"
    if "c1 < nat (n + 1)" "c2 < nat (n + 1)" "c1 \<noteq> c2" for c1 c2
    using orthogonal_columns [OF ax pV len rows, of c1 c2] that nN by simp
  show ?thesis
    by (rule exI [of _ OA]) (use res l2 rw orth in blast)
qed


lemma fano_is_plane: "is_projective_plane 2 \<lparr>pnts = range1 7, blcks = fano_blcks\<rparr>"
  by code_simp

text \<open>
  C3. Let \<open>D\<close> be a projective plane of order \<open>n\<close>: a design on the points
  \<open>0, \<dots>, n\<^sup>2 + n\<close> with \<open>n\<^sup>2 + n + 1\<close> blocks of \<open>n + 1\<close> distinct points, two blocks meeting in
  exactly one point and two points lying in exactly one block. For every point \<open>pt\<close> of
  \<open>D\<close>, and for \<open>pt\<close> unspecified, which stands for \<open>n\<^sup>2 + n\<close>,
  \<open>projective_plane_to_OA\<close> returns an array of exactly \<open>n\<^sup>2\<close> rows, each of width \<open>n + 1\<close>
  with entries in \<open>0, \<dots>, n - 1\<close>, and for any two distinct columns the map from the rows
  to the pairs of their entries in these columns is a bijection onto the \<open>n\<^sup>2\<close> ordered
  pairs of symbols.
\<close>

theorem projective_plane_to_OA_orthogonal:
  assumes "is_projective_plane n D"
    and "case pt of None \<Rightarrow> True | Some p \<Rightarrow> p \<in> set (pnts D)"
  shows "\<exists>OA. projective_plane_to_OA is_orthogonal_array D pt check = Inr OA
           \<and> int (length OA) = n\<^sup>2
           \<and> (\<forall>r \<in> set OA. int (length r) = n + 1 \<and> (\<forall>s \<in> set r. 0 \<le> s \<and> s < n))
           \<and> (\<forall>c1 < nat (n + 1). \<forall>c2 < nat (n + 1). c1 \<noteq> c2 \<longrightarrow>
                 bij_betw (\<lambda>k. (OA ! k ! c1, OA ! k ! c2)) {..<length OA} ({0..<n} \<times> {0..<n}))
           \<and> projective_plane_to_OA is_orthogonal_array D None check
               = projective_plane_to_OA is_orthogonal_array D (Some (n\<^sup>2 + n)) check"
proof -
  from projective_plane_to_OA_plane [OF assms, of is_orthogonal_array check]
  obtain OA where OA: "projective_plane_to_OA is_orthogonal_array D pt check = Inr OA"
    "int (length OA) = n\<^sup>2"
    "\<forall>r \<in> set OA. int (length r) = n + 1 \<and> (\<forall>s \<in> set r. 0 \<le> s \<and> s < n)"
    "\<forall>c1 < nat (n + 1). \<forall>c2 < nat (n + 1). c1 \<noteq> c2 \<longrightarrow>
                 bij_betw (\<lambda>k. (OA ! k ! c1, OA ! k ! c2)) {..<length OA} ({0..<n} \<times> {0..<n})"
    by (elim exE conjE) (rule that; assumption)
  have lB: "int (length (blcks D)) = n\<^sup>2 + n + 1"
    and blk: "\<forall>b \<in> set (blcks D). int (length b) = n + 1"
    using assms(1) unfolding is_projective_plane_def by blast+
  have "blcks D \<noteq> []" using lB order_count_nonneg [of n] by auto
  then obtain b0 bs where Bc: "blcks D = b0 # bs" by (cases "blcks D") auto
  have b0: "int (length b0) - 1 = n" using blk Bc by simp
  have dflt: "projective_plane_to_OA is_orthogonal_array D None check
               = projective_plane_to_OA is_orthogonal_array D (Some (n\<^sup>2 + n)) check"
    unfolding projective_plane_to_OA_def Bc Let_def list.case b0 by simp
  show ?thesis
    by (rule exI [of _ OA]) (intro conjI OA dflt)
qed

theorem projective_plane_to_OA_orthogonal_witness:
  "\<exists>OA. projective_plane_to_OA rejecting_is_orthogonal_array \<lparr>pnts = range1 7, blcks = fano_blcks\<rparr> (Some 0) True = Inr OA
      \<and> OA = [[0, 0, 0], [0, 1, 1], [1, 0, 1], [1, 1, 0]]
      \<and> length OA = 4
      \<and> bij_betw (\<lambda>k. (OA ! k ! 0, OA ! k ! 2)) {..<length OA} ({0..<2} \<times> {0..<2})"
proof -
  have pt: "case Some (0::int) of None \<Rightarrow> True | Some p \<Rightarrow> p \<in> set (pnts \<lparr>pnts = range1 7, blcks = fano_blcks\<rparr>)"
    by (simp add: set_range1)
  from projective_plane_to_OA_orthogonal [OF fano_is_plane pt, of rejecting_is_orthogonal_array True]
  obtain OA where OA:
    "projective_plane_to_OA rejecting_is_orthogonal_array \<lparr>pnts = range1 7, blcks = fano_blcks\<rparr> (Some 0) True = Inr OA"
    "int (length OA) = 2\<^sup>2"
    "\<forall>c1 < nat (2 + 1). \<forall>c2 < nat (2 + 1). c1 \<noteq> c2 \<longrightarrow>
                 bij_betw (\<lambda>k. (OA ! k ! c1, OA ! k ! c2)) {..<length OA} ({0..<2} \<times> {0..<2})"
    by (elim exE conjE) (rule that; assumption)
  have ev: "projective_plane_to_OA rejecting_is_orthogonal_array \<lparr>pnts = range1 7, blcks = fano_blcks\<rparr> (Some 0) False
      = Inr [[0, 0, 0], [0, 1, 1], [1, 0, 1], [1, 1, 0]]"
    by code_simp
  have eq: "OA = [[0, 0, 0], [0, 1, 1], [1, 0, 1], [1, 1, 0]]"
    using OA(1) ev
      projective_plane_to_OA_ignores_check [of rejecting_is_orthogonal_array
        "\<lparr>pnts = range1 7, blcks = fano_blcks\<rparr>" "Some 0" True rejecting_is_orthogonal_array False]
    by simp
  have l: "length OA = 4" using OA(2) by simp
  have b: "bij_betw (\<lambda>k. (OA ! k ! 0, OA ! k ! 2)) {..<length OA} ({0..<2} \<times> {0..<2})"
    using OA(3) [rule_format, of 0 2] by simp
  show ?thesis
    by (rule exI [of _ OA]) (intro conjI OA(1) eq l b)
qed

subsection \<open>The Desarguesian plane is a projective plane\<close>

text \<open>
  Two distinct points of the plane over a field lie on exactly one common line; with the
  labelling of the builder, two distinct labels lie in exactly one common block.
\<close>

lemma two_points_join:
  fixes p q :: "'a::field ppoint"
  assumes "p \<noteq> q"
  shows "\<exists>!l. on_line p l \<and> on_line q l"
proof (cases p; cases q)
  fix x y x' y'
  assume p: "p = PAff x y" and q: "q = PAff x' y'"
  show ?thesis
  proof (cases "y = y'")
    case True
    with assms p q have "x \<noteq> x'" by simp
    show ?thesis
    proof (rule ex1I [of _ "LHoriz y"])
      show "on_line p (LHoriz y) \<and> on_line q (LHoriz y)" using p q True by simp
      fix l assume "on_line p l \<and> on_line q l"
      then show "l = LHoriz y" using p q True \<open>x \<noteq> x'\<close> by (cases l) auto
    qed
  next
    case False
    then have nz: "y - y' \<noteq> 0" by simp
    define s where "s = (x - x') / (y - y')"
    define a where "a = x - s * y"
    have sy: "s * (y - y') = x - x'" using nz by (simp add: s_def)
    have on_p: "x = s * y + a" by (simp add: a_def)
    have "s * y' + a = x - s * (y - y')" by (simp add: a_def algebra_simps)
    then have on_q: "x' = s * y' + a" using sy by simp
    show ?thesis
    proof (rule ex1I [of _ "LSlope s a"])
      show "on_line p (LSlope s a) \<and> on_line q (LSlope s a)" using p q on_p on_q by simp
      fix l assume l: "on_line p l \<and> on_line q l"
      show "l = LSlope s a"
      proof (cases l)
        case (LSlope t b)
        with l p q have e: "x = t * y + b" "x' = t * y' + b" by auto
        then have "x - x' = t * (y - y')" by (simp add: algebra_simps)
        then have "t = (x - x') / (y - y')" using nz by (simp add: nonzero_eq_divide_eq)
        then have t: "t = s" by (simp add: s_def)
        then have "b = a" using e(1) on_p by simp
        with t LSlope show ?thesis by simp
      next
        case (LHoriz b)
        with l p q False show ?thesis by auto
      next
        case LInfty
        with l p show ?thesis by auto
      qed
    qed
  qed
next
  fix x y t
  assume p: "p = PAff x y" and q: "q = PInf t"
  show ?thesis
  proof (rule ex1I [of _ "LSlope t (x - t * y)"])
    show "on_line p (LSlope t (x - t * y)) \<and> on_line q (LSlope t (x - t * y))" using p q by simp
    fix l assume "on_line p l \<and> on_line q l"
    then show "l = LSlope t (x - t * y)" using p q by (cases l) (auto simp: algebra_simps)
  qed
next
  fix x y
  assume p: "p = PAff x y" and q: "q = PVert"
  show ?thesis
  proof (rule ex1I [of _ "LHoriz y"])
    show "on_line p (LHoriz y) \<and> on_line q (LHoriz y)" using p q by simp
    fix l assume "on_line p l \<and> on_line q l"
    then show "l = LHoriz y" using p q by (cases l) auto
  qed
next
  fix x y t
  assume q: "q = PAff x y" and p: "p = PInf t"
  show ?thesis
  proof (rule ex1I [of _ "LSlope t (x - t * y)"])
    show "on_line p (LSlope t (x - t * y)) \<and> on_line q (LSlope t (x - t * y))" using p q by simp
    fix l assume "on_line p l \<and> on_line q l"
    then show "l = LSlope t (x - t * y)" using p q by (cases l) (auto simp: algebra_simps)
  qed
next
  fix t t' :: 'a
  assume p: "p = PInf t" and q: "q = PInf t'"
  with assms have "t \<noteq> t'" by simp
  show ?thesis
  proof (rule ex1I [of _ LInfty])
    show "on_line p LInfty \<and> on_line q LInfty" using p q by simp
    fix l assume "on_line p l \<and> on_line q l"
    then show "l = LInfty" using p q \<open>t \<noteq> t'\<close> by (cases l) auto
  qed
next
  fix t :: 'a
  assume p: "p = PInf t" and q: "q = PVert"
  show ?thesis
  proof (rule ex1I [of _ LInfty])
    show "on_line p LInfty \<and> on_line q LInfty" using p q by simp
    fix l assume "on_line p l \<and> on_line q l"
    then show "l = LInfty" using p q by (cases l) auto
  qed
next
  fix x y
  assume q: "q = PAff x y" and p: "p = PVert"
  show ?thesis
  proof (rule ex1I [of _ "LHoriz y"])
    show "on_line p (LHoriz y) \<and> on_line q (LHoriz y)" using p q by simp
    fix l assume "on_line p l \<and> on_line q l"
    then show "l = LHoriz y" using p q by (cases l) auto
  qed
next
  fix t :: 'a
  assume q: "q = PInf t" and p: "p = PVert"
  show ?thesis
  proof (rule ex1I [of _ LInfty])
    show "on_line p LInfty \<and> on_line q LInfty" using p q by simp
    fix l assume "on_line p l \<and> on_line q l"
    then show "l = LInfty" using p q by (cases l) auto
  qed
next
  assume "p = PVert" "q = PVert"
  with assms show ?thesis by simp
qed

lemma point_label_surj:
  assumes K: "distinct K" "set K = UNIV" and n: "n = int (length K)" and x: "0 \<le> x" "x \<le> n\<^sup>2 + n"
  shows "\<exists>p. point_label K n p = x"
proof -
  have idx: "\<exists>a. field_index K a = i" if "0 \<le> i" "i < n" for i
  proof -
    have "i \<in> range (field_index K)"
      using field_index_image [OF K] that n by simp
    then show ?thesis by auto
  qed
  consider "x < n\<^sup>2" | "n\<^sup>2 \<le> x" "x < n\<^sup>2 + n" | "x = n\<^sup>2 + n" using x by linarith
  then show ?thesis
  proof cases
    case 1
    have n0: "0 < n"
    proof (rule ccontr)
      assume "\<not> 0 < n"
      then have "n = 0" using n by simp
      with 1 x show False by simp
    qed
    have m: "0 \<le> x mod n" "x mod n < n" using n0 by simp_all
    have d: "0 \<le> x div n" using x n0 by (simp add: pos_imp_zdiv_nonneg_iff)
    have "x < n * n" using 1 by (simp add: power2_eq_square)
    have d2: "x div n < n"
    proof (rule ccontr)
      assume "\<not> x div n < n"
      then have "n * n \<le> n * (x div n)" using n0 by (intro mult_left_mono) simp_all
      moreover have "n * (x div n) + x mod n = x" by (rule mult_div_mod_eq)
      ultimately show False using m(1) \<open>x < n * n\<close> by linarith
    qed
    from idx [OF m] obtain a where a: "field_index K a = x mod n" by blast
    from idx [OF d d2] obtain b where b: "field_index K b = x div n" by blast
    have "point_label K n (PAff a b) = x" using a b by simp
    then show ?thesis by blast
  next
    case 2
    then have "0 \<le> x - n\<^sup>2" "x - n\<^sup>2 < n" by simp_all
    from idx [OF this] obtain s where "field_index K s = x - n\<^sup>2" by blast
    then have "point_label K n (PInf s) = x" by simp
    then show ?thesis by blast
  next
    case 3
    then have "point_label K n PVert = x" by simp
    then show ?thesis by blast
  qed
qed

lemma set_plane_lines:
  assumes "set Kiter = UNIV"
  shows "set (plane_lines Kiter) = UNIV"
proof -
  have "l \<in> set (plane_lines Kiter)" for l :: "'a pline"
  proof (cases l)
    case (LSlope s a)
    have "(s, a) \<in> set (List.product Kiter Kiter)" using assms by simp
    then have "(\<lambda>(s, a). LSlope s a) (s, a) \<in> set (map (\<lambda>(s, a). LSlope s a) (List.product Kiter Kiter))"
      unfolding set_map by (rule imageI)
    then show ?thesis using LSlope by (simp add: plane_lines_def)
  next
    case (LHoriz a)
    then show ?thesis using assms by (simp add: plane_lines_def)
  next
    case LInfty
    then show ?thesis by (simp add: plane_lines_def)
  qed
  then show ?thesis by blast
qed

lemma label_on_block:
  assumes "distinct K" "set K = UNIV" "n = int (length K)" "set Kiter = UNIV"
  shows "point_label K n p \<in> set (line_block K Kiter n l) \<longleftrightarrow> on_line p l"
proof -
  have inj: "inj (point_label K n)" by (rule point_label_inj [OF assms(1-3)])
  show ?thesis
    unfolding set_line_block [OF assms] using inj by (auto simp: inj_image_mem_iff)
qed

lemma plane_blocks_join_once:
  fixes K :: "'a::field list"
  assumes K: "distinct K" "set K = UNIV" and n: "n = int (length K)"
    and Kiter: "distinct Kiter" "set Kiter = UNIV"
    and x: "0 \<le> x" "x \<le> n\<^sup>2 + n" and y: "0 \<le> y" "y \<le> n\<^sup>2 + n" and ne: "x \<noteq> y"
  shows "length (filter (\<lambda>b. x \<in> set b \<and> y \<in> set b)
           (map (line_block K Kiter n) (plane_lines Kiter))) = 1"
proof -
  from point_label_surj [OF K n x] obtain p where p: "point_label K n p = x" by blast
  from point_label_surj [OF K n y] obtain q where q: "point_label K n q = y" by blast
  have pq: "p \<noteq> q" using p q ne by auto
  have mem: "(x \<in> set (line_block K Kiter n l) \<and> y \<in> set (line_block K Kiter n l))
       \<longleftrightarrow> (on_line p l \<and> on_line q l)" for l
    using label_on_block [OF K n Kiter(2), of p l] label_on_block [OF K n Kiter(2), of q l] p q
    by simp
  have "length (filter (\<lambda>b. x \<in> set b \<and> y \<in> set b) (map (line_block K Kiter n) (plane_lines Kiter)))
      = length (filter (\<lambda>l. on_line p l \<and> on_line q l) (plane_lines Kiter))"
    by (simp add: filter_map comp_def mem)
  also have "\<dots> = card ({l. on_line p l \<and> on_line q l} \<inter> set (plane_lines Kiter))"
    by (rule distinct_length_filter [OF distinct_plane_lines [OF Kiter(1)]])
  also have "\<dots> = card {l. on_line p l \<and> on_line q l}"
    by (simp add: set_plane_lines [OF Kiter(2)])
  also have "\<dots> = 1"
  proof -
    from two_points_join [OF pq] obtain l0 where "{l. on_line p l \<and> on_line q l} = {l0}" by auto
    then show ?thesis by simp
  qed
  finally show ?thesis .
qed

text \<open>
  The design the Desarguesian builder makes of a finite field is a projective plane in
  the sense above, so that \<open>projective_plane_to_OA\<close> makes an orthogonal array of it.
\<close>

lemma Desarguesian_is_projective_plane:
  fixes K :: "'a::field list"
  assumes FF: "FF n = Some K" and K: "distinct K" "set K = UNIV" and n: "int (length K) = n"
    and iter: "distinct (iter (relabel_dict K))" "set (iter (relabel_dict K)) = dom (relabel_dict K)"
    and run: "DesarguesianProjectivePlaneDesign FF iter chk n c = Inr D"
  shows "is_projective_plane n D"
proof -
  define Kiter where "Kiter = iter (relabel_dict K)"
  define bs where "bs = map (line_block K Kiter n) (plane_lines Kiter)"
  have n': "n = int (length K)" using n by simp
  have Kiter: "distinct Kiter" "set Kiter = UNIV"
    using iter K(2) by (simp_all add: Kiter_def relabel_dict_dom)
  have len: "length Kiter = length K" by (rule length_field_iter [OF K Kiter])
  have "BlockDesign chk (n\<^sup>2 + n + 1) bs c = Inr D"
    using run Desarguesian_design [of FF n K iter chk c, OF FF K] by (simp add: bs_def Kiter_def)
  then have D: "D = \<lparr>pnts = range1 (n\<^sup>2 + n + 1), blcks = bs\<rparr>" by (rule BlockDesign_Inr)
  have pn: "set (pnts D) = {0..n\<^sup>2 + n}" by (auto simp: D set_range1)
  have "K \<noteq> []" using K(2) by auto
  then have n1: "1 \<le> n" using n' by (cases K) simp_all
  have p: "pnts D = range1 (n\<^sup>2 + n + 1)" by (simp add: D)
  have lbs: "int (length (blcks D)) = n\<^sup>2 + n + 1"
    using length_plane_lines [of Kiter] len n' by (simp add: D bs_def)
  have shape: "\<forall>b \<in> set (blcks D). int (length b) = n + 1 \<and> distinct b \<and> set b \<subseteq> set (pnts D)"
  proof
    fix b assume "b \<in> set (blcks D)"
    then obtain l where "b = line_block K Kiter n l" by (auto simp: D bs_def)
    then show "int (length b) = n + 1 \<and> distinct b \<and> set b \<subseteq> set (pnts D)"
      using line_block_shape [OF K n' Kiter, of l] pn by simp
  qed
  have meet: "\<forall>i \<in> {..<length (blcks D)}. \<forall>j \<in> {..<length (blcks D)}. i \<noteq> j \<longrightarrow>
         card (set (blcks D ! i) \<inter> set (blcks D ! j)) = 1"
  proof (intro ballI impI)
    fix i j assume "i \<in> {..<length (blcks D)}" "j \<in> {..<length (blcks D)}" "i \<noteq> j"
    then have "i < length bs" "j < length bs" "i \<noteq> j" by (simp_all add: D)
    from plane_blocks_meet_once [OF K n' Kiter bs_def this]
    show "card (set (blcks D ! i) \<inter> set (blcks D ! j)) = 1" by (simp add: D)
  qed
  have join: "\<forall>x \<in> set (pnts D). \<forall>y \<in> set (pnts D). x \<noteq> y \<longrightarrow>
         length (filter (\<lambda>b. x \<in> set b \<and> y \<in> set b) (blcks D)) = 1"
  proof (intro ballI impI)
    fix x y assume "x \<in> set (pnts D)" "y \<in> set (pnts D)" "x \<noteq> y"
    then have "0 \<le> x" "x \<le> n\<^sup>2 + n" "0 \<le> y" "y \<le> n\<^sup>2 + n" "x \<noteq> y" using pn by simp_all
    from plane_blocks_join_once [OF K n' Kiter this]
    show "length (filter (\<lambda>b. x \<in> set b \<and> y \<in> set b) (blcks D)) = 1" by (simp add: D bs_def)
  qed
  show ?thesis unfolding is_projective_plane_def
    by (intro conjI n1 p lbs shape meet join)
qed

lemma Desarguesian_to_OA:
  fixes K :: "'a::field list"
  assumes FF: "FF n = Some K" and K: "distinct K" "set K = UNIV" and n: "int (length K) = n"
    and iter: "distinct (iter (relabel_dict K))" "set (iter (relabel_dict K)) = dom (relabel_dict K)"
    and run: "DesarguesianProjectivePlaneDesign FF iter chk n c = Inr D"
  shows "\<exists>OA. projective_plane_to_OA is_orthogonal_array D None check = Inr OA
           \<and> int (length OA) = n\<^sup>2
           \<and> (\<forall>r \<in> set OA. int (length r) = n + 1 \<and> (\<forall>s \<in> set r. 0 \<le> s \<and> s < n))
           \<and> (\<forall>c1 < nat (n + 1). \<forall>c2 < nat (n + 1). c1 \<noteq> c2 \<longrightarrow>
                 bij_betw (\<lambda>k. (OA ! k ! c1, OA ! k ! c2)) {..<length OA} ({0..<n} \<times> {0..<n}))"
  by (rule projective_plane_to_OA_plane
      [OF Desarguesian_is_projective_plane [of FF n K iter chk c D, OF FF K n iter run]]) simp

end
